theory Spec2Isabelle
  imports Main "HOL-Library.Word"
begin

unbundle bit_operations_syntax

chapter \<open>A shallow embedding of core.cpp\<close>

text \<open>
  The embedding follows \<^verbatim>\<open>src/core.cpp\<close> function by function. C++ unsigned integers
  are words (\<open>uint64\<close>, \<open>unsigned int\<close> = \<open>uint32\<close>, \<open>uint256\<close>), so \<open>+\<close>, \<open>-\<close> and \<open>*\<close>
  wrap around as they do in the program. C++ \<open>int\<close> values that are only compared,
  copied or used as small loop counters are \<open>int\<close> or \<open>nat\<close>. Reference parameters and
  mutable members are passed in and returned. \<open>error("...")\<close> writes one line to the
  log and yields \<open>false\<close>; the log lines a call writes are returned as a list.
\<close>

type_synonym uint32 = "32 word"
type_synonym uint64 = "64 word"
type_synonym uint256 = "256 word"

section \<open>Amount compression (lines 132-184)\<close>

text \<open>
  The \<open>while\<close> loop of \<open>CompressAmount\<close>: strip factors of ten, at most nine of them.
  The counter \<open>e\<close> is a C++ \<open>int\<close> that stays in \<open>0..9\<close>.
\<close>

function CompressAmount_loop :: "uint64 \<Rightarrow> nat \<Rightarrow> uint64 \<times> nat" where
  "CompressAmount_loop n e =
     (if n mod 10 = 0 \<and> e < 9 then CompressAmount_loop (n div 10) (e + 1) else (n, e))"
  by pat_completeness auto
termination
  by (relation "measure (\<lambda>(n, e). 9 - e)") auto

declare CompressAmount_loop.simps [simp del]

definition CompressAmount :: "uint64 \<Rightarrow> uint64" where
  "CompressAmount n0 =
     (if n0 = 0 then 0
      else case CompressAmount_loop n0 0 of (n, e) \<Rightarrow>
        if e < 9 then
          (let d = n mod 10; n' = n div 10
           in 1 + (n' * 9 + d - 1) * 10 + of_nat e)
        else 1 + (n - 1) * 10 + 9)"

text \<open>The \<open>while (e)\<close> loop of \<open>DecompressAmount\<close>: multiply by ten, \<open>e\<close> times.\<close>

fun DecompressAmount_loop :: "uint64 \<Rightarrow> nat \<Rightarrow> uint64" where
  "DecompressAmount_loop n 0 = n"
| "DecompressAmount_loop n (Suc e) = DecompressAmount_loop (n * 10) e"

definition DecompressAmount :: "uint64 \<Rightarrow> uint64" where
  "DecompressAmount x0 =
     (if x0 = 0 then 0
      else
        (let x = x0 - 1;
             e = unat (x mod 10);
             x = x div 10;
             n = (if e < 9 then
                    (let d = (x mod 9) + 1; x = x div 9 in x * 10 + d)
                  else x + 1)
         in DecompressAmount_loop n e))"

text \<open>
  The same two algorithms in unbounded arithmetic. They say what the 64-bit code computes
  when no operation wraps: every operation after the divisions only grows its operand
  (\<open>d\<close> is at least 1 and \<open>n\<close> is at least 1 where 1 is subtracted), so the 64-bit run has
  no overflow exactly when the unbounded result is below \<open>2^64\<close>.
\<close>

function CompressAmount_exact_loop :: "nat \<Rightarrow> nat \<Rightarrow> nat \<times> nat" where
  "CompressAmount_exact_loop n e =
     (if n mod 10 = 0 \<and> e < 9 then CompressAmount_exact_loop (n div 10) (e + 1) else (n, e))"
  by pat_completeness auto
termination
  by (relation "measure (\<lambda>(n, e). 9 - e)") auto

declare CompressAmount_exact_loop.simps [simp del]

definition CompressAmount_exact :: "nat \<Rightarrow> nat" where
  "CompressAmount_exact n0 =
     (if n0 = 0 then 0
      else case CompressAmount_exact_loop n0 0 of (n, e) \<Rightarrow>
        if e < 9 then
          (let d = n mod 10; n' = n div 10
           in 1 + (n' * 9 + d - 1) * 10 + e)
        else 1 + (n - 1) * 10 + 9)"

fun DecompressAmount_exact_loop :: "nat \<Rightarrow> nat \<Rightarrow> nat" where
  "DecompressAmount_exact_loop n 0 = n"
| "DecompressAmount_exact_loop n (Suc e) = DecompressAmount_exact_loop (n * 10) e"

definition DecompressAmount_exact :: "nat \<Rightarrow> nat" where
  "DecompressAmount_exact x0 =
     (if x0 = 0 then 0
      else
        (let x = x0 - 1;
             e = x mod 10;
             x = x div 10;
             n = (if e < 9 then
                    (let d = (x mod 9) + 1; x = x div 9 in x * 10 + d)
                  else x + 1)
         in DecompressAmount_exact_loop n e))"

section \<open>Coin entries (lines 186-227)\<close>

text \<open>
  \<open>CTxOut\<close>: \<open>nValue\<close> is an \<open>int64\<close>, \<open>scriptPubKey\<close> a byte string. Both fields are
  only stored and compared here.
\<close>

record CTxOut =
  nValue :: int
  scriptPubKey :: "8 word list"

text \<open>
  Modelled from the spec: \<open>CTxOut::IsNull\<close> and \<open>CTxOut::SetNull\<close> are declared in core.h,
  which is not among the sources. The spec's data model: the null state of an output is
  a negative value sentinel together with an empty script, distinct from a zero-value
  unspent output. The sentinel is \<open>-1\<close>.
\<close>

definition IsNull :: "CTxOut \<Rightarrow> bool" where
  "IsNull t = (nValue t = -1)"

definition SetNull :: "CTxOut \<Rightarrow> CTxOut" where
  "SetNull t = t\<lparr>nValue := -1, scriptPubKey := []\<rparr>"

text \<open>\<open>COutPoint\<close>: \<open>hash\<close> is a \<open>uint256\<close>, \<open>n\<close> an \<open>unsigned int\<close>.\<close>

record COutPoint =
  outpoint_hash :: uint256
  outpoint_n :: uint32

text \<open>\<open>CCoins\<close>, the entry of one transaction in the set of unspent outputs.\<close>

record CCoins =
  fCoinBase :: bool
  vout :: "CTxOut list"
  nHeight :: int
  nVersion :: int

text \<open>\<open>CTxInUndo\<close>, what \<open>Spend\<close> writes for a later rollback.\<close>

record CTxInUndo =
  txout :: CTxOut
  undo_fCoinBase :: bool
  undo_nHeight :: int
  undo_nVersion :: int

text \<open>
  Modelled from the spec: the constructor \<open>CTxInUndo(const CTxOut&)\<close> is declared in
  core.h, which is not among the sources. The spec's data model: the undo record is a
  snapshot of exactly one output and carries the entry's metadata only when the spend
  empties the entry; a fresh record therefore has the metadata cleared.
\<close>

definition CTxInUndo_of :: "CTxOut \<Rightarrow> CTxInUndo" where
  "CTxInUndo_of t = \<lparr>txout = t, undo_fCoinBase = False, undo_nHeight = 0, undo_nVersion = 0\<rparr>"

text \<open>
  Modelled from the spec: \<open>CCoins::Cleanup\<close> is declared in core.h, which is not among the
  sources. The spec's data model: Cleanup trims trailing null outputs (and leaves the
  entry with no outputs when all of them are null).
\<close>

function Cleanup_loop :: "CTxOut list \<Rightarrow> CTxOut list" where
  "Cleanup_loop vo =
     (if vo \<noteq> [] \<and> IsNull (last vo) then Cleanup_loop (butlast vo) else vo)"
  by pat_completeness auto
termination
  by (relation "measure length") auto

declare Cleanup_loop.simps [simp del]

definition Cleanup :: "CCoins \<Rightarrow> CCoins" where
  "Cleanup c = c\<lparr>vout := Cleanup_loop (vout c)\<rparr>"

text \<open>
  \<open>CCoins::CalcMaskSize\<close> (lines 189-205). \<open>b\<close> and \<open>i\<close> are \<open>unsigned int\<close>: the index
  \<open>2+b*8+i\<close> is computed in 32 bits and compared with the \<open>size_t\<close> length of \<open>vout\<close>.
  The inner loop runs at most eight times; the \<open>continue\<close> in its body ends the current
  iteration, which ends there anyway, so the scan goes on to the next slot.
\<close>

function CalcMaskSize_inner :: "CTxOut list \<Rightarrow> uint32 \<Rightarrow> uint32 \<Rightarrow> bool \<Rightarrow> bool" where
  "CalcMaskSize_inner vo b i fZero =
     (if i < 8 \<and> unat (2 + b * 8 + i) < length vo then
        CalcMaskSize_inner vo b (i + 1)
          (if \<not> IsNull (vo ! unat (2 + b * 8 + i)) then False else fZero)
      else fZero)"
  by pat_completeness auto
termination
proof (relation "measure (\<lambda>(vo, b, i, fZero). 8 - unat i)")
  show "wf (measure (\<lambda>(vo, b, i, fZero). 8 - unat i))" by simp
next
  fix vo :: "CTxOut list" and b i :: uint32 and fZero :: bool
  assume "i < 8 \<and> unat (2 + b * 8 + i) < length vo"
  then have "unat i < 8" by (simp add: word_less_nat_alt)
  then have "unat (i + 1) = unat i + 1" by (simp add: unat_word_ariths)
  with \<open>unat i < 8\<close>
  show "((vo, b, i + 1, if \<not> IsNull (vo ! unat (2 + b * 8 + i)) then False else fZero),
          (vo, b, i, fZero)) \<in> measure (\<lambda>(vo, b, i, fZero). 8 - unat i)"
    by simp
qed

declare CalcMaskSize_inner.simps [simp del]

text \<open>
  The outer loop has no bound of its own: when \<open>vout\<close> has \<open>2^32 - 5\<close> slots or more,
  \<open>2+b*8\<close> wraps before it reaches the length and the loop does not end. Not returning
  is the value \<open>None\<close>.
\<close>

partial_function (option) CalcMaskSize_loop ::
  "CTxOut list \<Rightarrow> uint32 \<Rightarrow> uint32 \<Rightarrow> uint32 \<Rightarrow> (uint32 \<times> uint32) option" where
  "CalcMaskSize_loop vo b nLastUsedByte nNonzeroBytes =
     (if unat (2 + b * 8) < length vo then
        (if \<not> CalcMaskSize_inner vo b 0 True
         then CalcMaskSize_loop vo (b + 1) (b + 1) (nNonzeroBytes + 1)
         else CalcMaskSize_loop vo (b + 1) nLastUsedByte nNonzeroBytes)
      else Some (nLastUsedByte, nNonzeroBytes))"

declare CalcMaskSize_loop.simps [code]

text \<open>
  \<open>nBytes\<close> and \<open>nNonzeroBytes\<close> are reference parameters: the function adds to what the
  caller passes in, and the pair returned is their value after the call.
\<close>

definition CalcMaskSize :: "CCoins \<Rightarrow> uint32 \<Rightarrow> uint32 \<Rightarrow> (uint32 \<times> uint32) option" where
  "CalcMaskSize c nBytes nNonzeroBytes =
     (case CalcMaskSize_loop (vout c) 0 0 nNonzeroBytes of
        None \<Rightarrow> None
      | Some (nLastUsedByte, nNonzeroBytes') \<Rightarrow> Some (nBytes + nLastUsedByte, nNonzeroBytes'))"

text \<open>
  What the spec says \<open>calcMaskSize\<close> yields, in its own words: outputs 0 and 1 are outside
  the bitmask; byte \<open>b\<close> of the bitmask covers the eight output slots \<open>2+8b .. 2+8b+7\<close>
  and is used when one of those that exist is non-null; \<open>byteCount\<close> is the index of
  the last used byte plus 1 (0 if none), \<open>nonZeroByteCount\<close> the number of used bytes.
  The bitmask has a byte for every \<open>b\<close> with \<open>2+8b\<close> below the number of outputs.
\<close>

definition mask_byte_used :: "CTxOut list \<Rightarrow> nat \<Rightarrow> bool" where
  "mask_byte_used vo b = (\<exists>i\<in>{0..<8}. 2 + b * 8 + i < length vo \<and> \<not> IsNull (vo ! (2 + b * 8 + i)))"

definition mask_used_bytes :: "CTxOut list \<Rightarrow> nat list" where
  "mask_used_bytes vo = filter (mask_byte_used vo) [0..<(length vo + 5) div 8]"

definition mask_byteCount :: "CTxOut list \<Rightarrow> nat" where
  "mask_byteCount vo = (if mask_used_bytes vo = [] then 0 else last (mask_used_bytes vo) + 1)"

definition mask_nonZeroByteCount :: "CTxOut list \<Rightarrow> nat" where
  "mask_nonZeroByteCount vo = length (mask_used_bytes vo)"

text \<open>
  \<open>CCoins::Spend(const COutPoint&, CTxInUndo&)\<close> (lines 207-221) returns its \<open>bool\<close>, the
  entry and the undo record as they are after the call.
\<close>

definition Spend :: "CCoins \<Rightarrow> COutPoint \<Rightarrow> CTxInUndo \<Rightarrow> bool \<times> CCoins \<times> CTxInUndo" where
  "Spend c out undo =
     (if unat (outpoint_n out) \<ge> length (vout c) then (False, c, undo)
      else if IsNull (vout c ! unat (outpoint_n out)) then (False, c, undo)
      else
        (let undo1 = CTxInUndo_of (vout c ! unat (outpoint_n out));
             c1 = c\<lparr>vout := (vout c)[unat (outpoint_n out) := SetNull (vout c ! unat (outpoint_n out))]\<rparr>;
             c2 = Cleanup c1;
             undo2 = (if length (vout c2) = 0
                      then undo1\<lparr>undo_nHeight := nHeight c2, undo_fCoinBase := fCoinBase c2,
                                 undo_nVersion := nVersion c2\<rparr>
                      else undo1)
         in (True, c2, undo2)))"

text \<open>\<open>CCoins::Spend(int nPos)\<close> (lines 223-227): the \<open>int\<close> becomes the \<open>unsigned int n\<close>.\<close>

definition Spend_pos :: "CCoins \<Rightarrow> int \<Rightarrow> bool \<times> CCoins" where
  "Spend_pos c nPos =
     (case Spend c \<lparr>outpoint_hash = 0, outpoint_n = word_of_int nPos\<rparr>
             (CTxInUndo_of \<lparr>nValue = -1, scriptPubKey = []\<rparr>) of
        (ok, c', undo) \<Rightarrow> (ok, c'))"

section \<open>Proof of work (lines 229-305)\<close>

text \<open>\<open>error("...")\<close>: one line in the log, and the value \<open>false\<close>.\<close>

definition error :: "string \<Rightarrow> bool \<times> string list" where
  "error msg = (False, [msg])"

text \<open>
  What the functions below use and core.cpp does not define: \<open>TestNet()\<close>,
  \<open>GetOurChainID()\<close>, the decoding of a chain ID from a header's \<open>nVersion\<close>
  (\<open>CBlockHeader::GetChainID\<close>), \<open>CBigNum::SetCompact\<close> and \<open>CBigNum::getuint256\<close>,
  \<open>Params().ProofOfWorkLimit()\<close>, and \<open>HashSkein\<close> over the header fields
  \<open>nVersion .. nNonce\<close>. They are parameters of the model. A \<open>CBigNum\<close> is an \<open>int\<close>.
\<close>

record chain_params =
  TestNet :: bool
  GetOurChainID :: int
  ChainID_of_version :: "int \<Rightarrow> int"
  SetCompact :: "uint32 \<Rightarrow> int"
  getuint256 :: "int \<Rightarrow> uint256"
  ProofOfWorkLimit :: int
  HashSkein :: "int \<times> uint256 \<times> uint256 \<times> uint32 \<times> uint32 \<times> uint32 \<Rightarrow> uint256"

definition INT_MAX :: int where
  "INT_MAX = 2147483647"

definition GetAuxPowStartBlock :: "chain_params \<Rightarrow> int" where
  "GetAuxPowStartBlock p = (if TestNet p then 0 else 1000000)"

text \<open>The global \<open>CheckProofOfWork(uint256 hash, unsigned int nBits)\<close> (lines 237-251).\<close>

definition CheckProofOfWork :: "chain_params \<Rightarrow> uint256 \<Rightarrow> uint32 \<Rightarrow> bool \<times> string list" where
  "CheckProofOfWork p hash nBits =
     (let bnTarget = SetCompact p nBits in
      if bnTarget \<le> 0 \<or> bnTarget > ProofOfWorkLimit p
      then error ''CheckProofOfWork() : nBits below minimum work''
      else if hash > getuint256 p bnTarget
      then error ''CheckProofOfWork() : hash doesn't match nBits''
      else (True, []))"

text \<open>
  The auxiliary proof-of-work record is a collaborator known by its interface:
  \<open>Check(hash, chainID)\<close> and \<open>GetParentBlockHash()\<close>.
\<close>

record CAuxPow =
  auxpow_Check :: "uint256 \<Rightarrow> int \<Rightarrow> bool"
  auxpow_GetParentBlockHash :: uint256

text \<open>
  \<open>CBlockHeader\<close>: \<open>nVersion\<close> is an \<open>int\<close>, \<open>nTime\<close>, \<open>nBits\<close> and \<open>nNonce\<close> are
  \<open>unsigned int\<close>; \<open>auxpow\<close> is a pointer that is null or owns a record.
\<close>

record CBlockHeader =
  hdr_nVersion :: int
  hashPrevBlock :: uint256
  hashMerkleRoot :: uint256
  nTime :: uint32
  nBits :: uint32
  nNonce :: uint32
  auxpow :: "CAuxPow option"

definition GetHash :: "chain_params \<Rightarrow> 'a CBlockHeader_scheme \<Rightarrow> uint256" where
  "GetHash p h =
     HashSkein p (hdr_nVersion h, hashPrevBlock h, hashMerkleRoot h, nTime h, nBits h, nNonce h)"

definition GetChainID :: "chain_params \<Rightarrow> 'a CBlockHeader_scheme \<Rightarrow> int" where
  "GetChainID p h = ChainID_of_version p (hdr_nVersion h)"

text \<open>
  \<open>CBlockHeader::CheckProofOfWork(int nHeight)\<close> (lines 267-305); the parameter is
  \<open>height\<close> here, \<open>nHeight\<close> being a field of \<open>CCoins\<close>. When the global check fails it
  has written its own line to the log before the caller writes one.
\<close>

definition CBlockHeader_CheckProofOfWork ::
  "chain_params \<Rightarrow> 'a CBlockHeader_scheme \<Rightarrow> int \<Rightarrow> bool \<times> string list" where
  "CBlockHeader_CheckProofOfWork p h height =
     (if height \<ge> GetAuxPowStartBlock p then
        (if \<not> TestNet p \<and> height \<noteq> INT_MAX \<and> GetChainID p h \<noteq> GetOurChainID p
         then error ''CheckProofOfWork() : block does not have our chain ID''
         else
           (case auxpow h of
              Some a \<Rightarrow>
                (if \<not> auxpow_Check a (GetHash p h) (GetChainID p h)
                 then error ''CheckProofOfWork() : AUX POW is not valid''
                 else
                   (case CheckProofOfWork p (auxpow_GetParentBlockHash a) (nBits h) of
                      (ok, lg) \<Rightarrow>
                        if \<not> ok
                        then (False, lg @ [''CheckProofOfWork() : AUX proof of work failed''])
                        else (True, lg)))
            | None \<Rightarrow>
                (case CheckProofOfWork p (GetHash p h) (nBits h) of
                   (ok, lg) \<Rightarrow>
                     if \<not> ok
                     then (False, lg @ [''CheckProofOfWork() : proof of work failed''])
                     else (True, lg))))
      else
        (case auxpow h of
           Some a \<Rightarrow> error ''CheckProofOfWork() : AUX POW is not allowed at this block''
         | None \<Rightarrow>
             (case CheckProofOfWork p (GetHash p h) (nBits h) of
                (ok, lg) \<Rightarrow>
                  if \<not> ok
                  then (False, lg @ [''CheckProofOfWork() : proof of work failed''])
                  else (True, lg))))"

section \<open>Blocks and the Merkle tree (lines 307-355)\<close>

text \<open>
  \<open>CBlock\<close> extends \<open>CBlockHeader\<close> by the transactions \<open>vtx\<close> and the cache
  \<open>vMerkleTree\<close>, a \<open>mutable\<close> member that \<open>const\<close> member functions write. The type
  \<open>'tx\<close> of transactions stays abstract: this file reads a transaction only through the
  collaborators below.
\<close>

record 'tx CBlock = CBlockHeader +
  vtx :: "'tx list"
  vMerkleTree :: "uint256 list"

text \<open>
  Modelled from the spec: \<open>CValidationState\<close> and its \<open>DoS\<close> are declared in main.h,
  which is not among the sources. The state accumulates a numeric misbehaviour penalty and
  records that the object was rejected; \<open>DoS(level, ret)\<close> adds \<open>level\<close> and yields \<open>ret\<close>.
\<close>

record CValidationState =
  nDoS :: int
  invalid :: bool

definition DoS :: "CValidationState \<Rightarrow> int \<Rightarrow> CValidationState" where
  "DoS state level = state\<lparr>nDoS := nDoS state + level, invalid := True\<rparr>"

text \<open>
  What the block functions use and core.cpp does not define: the two-argument \<open>Hash\<close>
  over the concatenation of two \<open>uint256\<close>, \<open>SerializeHash\<close> of a transaction
  (\<open>CTransaction::GetHash\<close>, line 77), \<open>CTransaction::IsCoinBase\<close>, \<open>CheckTransaction\<close>
  (which may write to the validation state), \<open>GetLegacySigOpCount\<close>,
  \<open>GetSerializeSize\<close> of the block, \<open>GetAdjustedTime\<close>, and the constants
  \<open>MAX_BLOCK_SIZE\<close> and \<open>MAX_BLOCK_SIGOPS\<close>. They are parameters of the model.
\<close>

record 'tx block_params =
  Hash :: "uint256 \<Rightarrow> uint256 \<Rightarrow> uint256"
  SerializeHash :: "'tx \<Rightarrow> uint256"
  IsCoinBase :: "'tx \<Rightarrow> bool"
  CheckTransaction :: "'tx \<Rightarrow> CValidationState \<Rightarrow> bool \<times> CValidationState"
  GetLegacySigOpCount :: "'tx \<Rightarrow> uint32"
  GetSerializeSize :: "'tx CBlock \<Rightarrow> nat"
  GetAdjustedTime :: int
  MAX_BLOCK_SIZE :: nat
  MAX_BLOCK_SIGOPS :: nat

text \<open>
  \<open>BuildMerkleTree\<close> (lines 307-324). \<open>i\<close>, \<open>j\<close>, \<open>nSize\<close> and \<open>i2\<close> are C++ \<open>int\<close>;
  they stay below \<open>2^31\<close> for every block of fewer than \<open>2^30\<close> transactions, the only
  ones the theorems speak of. The inner loop appends to the vector it reads; every read
  is at an index below \<open>j + nSize\<close>, the length of the vector when the loop starts.
\<close>

function BuildMerkleTree_inner ::
  "(uint256 \<Rightarrow> uint256 \<Rightarrow> uint256) \<Rightarrow> uint256 list \<Rightarrow> int \<Rightarrow> int \<Rightarrow> int \<Rightarrow> uint256 list" where
  "BuildMerkleTree_inner H t j nSize i =
     (if i < nSize then
        (let i2 = min (i + 1) (nSize - 1)
         in BuildMerkleTree_inner H (t @ [H (t ! nat (j + i)) (t ! nat (j + i2))]) j nSize (i + 2))
      else t)"
  by pat_completeness auto
termination
  by (relation "measure (\<lambda>(H, t, j, nSize, i). nat (nSize - i))") auto

declare BuildMerkleTree_inner.simps [simp del]

function BuildMerkleTree_outer ::
  "(uint256 \<Rightarrow> uint256 \<Rightarrow> uint256) \<Rightarrow> uint256 list \<Rightarrow> int \<Rightarrow> int \<Rightarrow> uint256 list" where
  "BuildMerkleTree_outer H t j nSize =
     (if nSize > 1 then
        BuildMerkleTree_outer H (BuildMerkleTree_inner H t j nSize 0) (j + nSize) ((nSize + 1) div 2)
      else t)"
  by pat_completeness auto
termination
  by (relation "measure (\<lambda>(H, t, j, nSize). nat nSize)") auto

declare BuildMerkleTree_outer.simps [simp del]

text \<open>The root returned, and the block with its cache rebuilt.\<close>

definition BuildMerkleTree :: "'tx block_params \<Rightarrow> 'tx CBlock \<Rightarrow> uint256 \<times> 'tx CBlock" where
  "BuildMerkleTree q blk =
     (let t0 = map (SerializeHash q) (vtx blk);
          t = BuildMerkleTree_outer (Hash q) t0 0 (int (length (vtx blk)))
      in (if t = [] then 0 else last t, blk\<lparr>vMerkleTree := t\<rparr>))"

text \<open>
  \<open>GetMerkleBranch\<close> (lines 326-340) reads the cache, which it builds only when the cache
  is empty. A read outside the cached vector has no defined result in C++; it is \<open>None\<close>.
\<close>

function GetMerkleBranch_loop ::
  "uint256 list \<Rightarrow> uint256 list \<Rightarrow> int \<Rightarrow> int \<Rightarrow> int \<Rightarrow> uint256 list option" where
  "GetMerkleBranch_loop t vMerkleBranch j nSize nIndex =
     (if nSize > 1 then
        (let i = min (nIndex XOR 1) (nSize - 1) in
         if 0 \<le> j + i \<and> nat (j + i) < length t
         then GetMerkleBranch_loop t (vMerkleBranch @ [t ! nat (j + i)])
                (j + nSize) ((nSize + 1) div 2) (drop_bit 1 nIndex)
         else None)
      else Some vMerkleBranch)"
  by pat_completeness auto
termination
  by (relation "measure (\<lambda>(t, vMerkleBranch, j, nSize, nIndex). nat nSize)") auto

declare GetMerkleBranch_loop.simps [simp del]

definition GetMerkleBranch ::
  "'tx block_params \<Rightarrow> 'tx CBlock \<Rightarrow> int \<Rightarrow> uint256 list option \<times> 'tx CBlock" where
  "GetMerkleBranch q blk nIndex =
     (let blk1 = (if vMerkleTree blk = [] then snd (BuildMerkleTree q blk) else blk)
      in (GetMerkleBranch_loop (vMerkleTree blk1) [] 0 (int (length (vtx blk1))) nIndex, blk1))"

text \<open>\<open>CheckMerkleBranch\<close> (lines 342-355), a static member function.\<close>

fun CheckMerkleBranch_loop ::
  "(uint256 \<Rightarrow> uint256 \<Rightarrow> uint256) \<Rightarrow> uint256 \<Rightarrow> uint256 list \<Rightarrow> int \<Rightarrow> uint256" where
  "CheckMerkleBranch_loop H hash [] nIndex = hash"
| "CheckMerkleBranch_loop H hash (otherside # rest) nIndex =
     CheckMerkleBranch_loop H
       (if nIndex AND 1 \<noteq> 0 then H otherside hash else H hash otherside)
       rest (drop_bit 1 nIndex)"

definition CheckMerkleBranch ::
  "(uint256 \<Rightarrow> uint256 \<Rightarrow> uint256) \<Rightarrow> uint256 \<Rightarrow> uint256 list \<Rightarrow> int \<Rightarrow> uint256" where
  "CheckMerkleBranch H hash vMerkleBranch nIndex =
     (if nIndex = - 1 then 0 else CheckMerkleBranch_loop H hash vMerkleBranch nIndex)"

text \<open>
  The Merkle tree in the spec's words: level 0 is the transaction hashes; each next level
  hashes adjacent pairs of the previous one, the last element of an odd-count level
  paired with itself; the levels stop at a level of one hash (or none).
\<close>

fun merkle_pairs :: "(uint256 \<Rightarrow> uint256 \<Rightarrow> uint256) \<Rightarrow> uint256 list \<Rightarrow> uint256 list" where
  "merkle_pairs H [] = []"
| "merkle_pairs H [x] = [H x x]"
| "merkle_pairs H (x # y # xs) = H x y # merkle_pairs H xs"

function merkle_levels :: "(uint256 \<Rightarrow> uint256 \<Rightarrow> uint256) \<Rightarrow> uint256 list \<Rightarrow> uint256 list list" where
  "merkle_levels H xs =
     (if length xs \<le> 1 then [xs] else xs # merkle_levels H (merkle_pairs H xs))"
  by pat_completeness auto
termination
proof (relation "measure (\<lambda>(H, xs). length xs)")
  show "wf (measure (\<lambda>(H, xs). length xs))" by simp
next
  fix H :: "uint256 \<Rightarrow> uint256 \<Rightarrow> uint256" and xs :: "uint256 list"
  assume a: "\<not> length xs \<le> 1"
  have "length (merkle_pairs H ys) = (length ys + 1) div 2" for ys
    by (induction H ys rule: merkle_pairs.induct) simp_all
  with a show "((H, merkle_pairs H xs), (H, xs)) \<in> measure (\<lambda>(H, xs). length xs)"
    by simp
qed

declare merkle_levels.simps [simp del]

text \<open>
  Modelled from the spec: \<open>CBlock::GetTxHash\<close> is declared in core.h, which is not among
  the sources. It is the hash of the transaction at the index, which the
  comment at lines 386-388 says \<open>BuildMerkleTree\<close> has cached in the block: the first
  \<open>vtx.size()\<close> entries of \<open>vMerkleTree\<close>.
\<close>

definition GetTxHash :: "'tx CBlock \<Rightarrow> nat \<Rightarrow> uint256" where
  "GetTxHash blk nIndex = vMerkleTree blk ! nIndex"

section \<open>CheckBlock (lines 357-413)\<close>

text \<open>The loop of lines 382-384: the first transaction that fails ends it.\<close>

fun CheckTransactions ::
  "'tx block_params \<Rightarrow> 'tx list \<Rightarrow> CValidationState \<Rightarrow> bool \<times> CValidationState" where
  "CheckTransactions q [] state = (True, state)"
| "CheckTransactions q (tx # txs) state =
     (case CheckTransaction q tx state of
        (ok, state') \<Rightarrow> if \<not> ok then (False, state') else CheckTransactions q txs state')"

text \<open>The loop of lines 401-404: \<open>nSigOps\<close> is an \<open>unsigned int\<close>.\<close>

fun CountSigOps :: "'tx block_params \<Rightarrow> 'tx list \<Rightarrow> uint32 \<Rightarrow> uint32" where
  "CountSigOps q [] nSigOps = nSigOps"
| "CountSigOps q (tx # txs) nSigOps = CountSigOps q txs (nSigOps + GetLegacySigOpCount q tx)"

text \<open>
  \<open>CheckBlock\<close> returns its \<open>bool\<close>, the validation state, the log lines of its own and of
  the global proof-of-work check, and the block with its cache. \<open>GetBlockTime()\<close> is
  \<open>nTime\<close> as an \<open>int64\<close>. The parameter \<open>nHeight\<close> is not used by the function.
\<close>

definition CheckBlock ::
  "chain_params \<Rightarrow> 'tx block_params \<Rightarrow> 'tx CBlock \<Rightarrow> int \<Rightarrow> CValidationState
     \<Rightarrow> bool \<times> CValidationState \<times> string list \<times> 'tx CBlock" where
  "CheckBlock p q blk height state =
     (if vtx blk = [] \<or> length (vtx blk) > MAX_BLOCK_SIZE q
         \<or> GetSerializeSize q blk > MAX_BLOCK_SIZE q
      then (False, DoS state 100, [''CheckBlock() : size limits failed''], blk)
      else case CheckProofOfWork p (GetHash p blk) (nBits blk) of (ok, lg) \<Rightarrow>
      if \<not> ok
      then (False, DoS state 50, lg @ [''CheckBlock() : proof of work failed''], blk)
      else if uint (nTime blk) > GetAdjustedTime q + 2 * 60 * 60
      then (False, state, lg @ [''CheckBlock() : block timestamp too far in the future''], blk)
      else if vtx blk = [] \<or> \<not> IsCoinBase q (vtx blk ! 0)
      then (False, DoS state 100, lg @ [''CheckBlock() : first tx is not coinbase''], blk)
      else if list_ex (IsCoinBase q) (tl (vtx blk))
      then (False, DoS state 100, lg @ [''CheckBlock() : more than one coinbase''], blk)
      else case CheckTransactions q (vtx blk) state of (ok, state1) \<Rightarrow>
      if \<not> ok
      then (False, state1, lg @ [''CheckBlock() : CheckTransaction failed''], blk)
      else
        (let blk1 = snd (BuildMerkleTree q blk);
             uniqueTx = set (map (GetTxHash blk1) [0..<length (vtx blk1)])
         in
         if card uniqueTx \<noteq> length (vtx blk1)
         then (False, DoS state1 100, lg @ [''CheckBlock() : duplicate transaction''], blk1)
         else if unat (CountSigOps q (vtx blk1) 0) > MAX_BLOCK_SIGOPS q
         then (False, DoS state1 100, lg @ [''CheckBlock() : out-of-bounds SigOpCount''], blk1)
         else case BuildMerkleTree q blk1 of (root, blk2) \<Rightarrow>
         if hashMerkleRoot blk2 \<noteq> root
         then (False, DoS state1 100, lg @ [''CheckBlock() : hashMerkleRoot mismatch''], blk2)
         else (True, state1, lg, blk2)))"

section \<open>Example parameters and inputs\<close>

text \<open>
  Small instances of the parameters, for evaluating the functions on concrete inputs:
  a compact target that is its own value, a chain ID in the upper 16 bits of the
  version, and toy hash functions.
\<close>

definition ex_chain :: "bool \<Rightarrow> chain_params" where
  "ex_chain testnet =
     \<lparr>TestNet = testnet, GetOurChainID = 2,
      ChainID_of_version = (\<lambda>v. v div 65536),
      SetCompact = (\<lambda>nBits. uint nBits),
      getuint256 = (\<lambda>bn. word_of_int bn),
      ProofOfWorkLimit = 1000000,
      HashSkein = (\<lambda>(v, prev, root, t, bits, nonce). root + ucast nonce)\<rparr>"

definition ex_auxpow :: "int \<Rightarrow> CAuxPow" where
  "ex_auxpow chain = \<lparr>auxpow_Check = (\<lambda>h c. c = chain), auxpow_GetParentBlockHash = 5\<rparr>"

definition ex_header :: "int \<Rightarrow> CAuxPow option \<Rightarrow> CBlockHeader" where
  "ex_header chain aux =
     \<lparr>hdr_nVersion = chain * 65536 + 1, hashPrevBlock = 0, hashMerkleRoot = 7, nTime = 100,
      nBits = 1000, nNonce = 4, auxpow = aux\<rparr>"

definition ex_txout :: "int \<Rightarrow> CTxOut" where
  "ex_txout v = \<lparr>nValue = v, scriptPubKey = (if v = -1 then [] else [118, 169])\<rparr>"

definition ex_coins :: "int list \<Rightarrow> CCoins" where
  "ex_coins vs = \<lparr>fCoinBase = True, vout = map ex_txout vs, nHeight = 10, nVersion = 1\<rparr>"

text \<open>
  Transactions that are natural numbers, 0 being the coinbase; a transaction's hash is
  its number, so two equal numbers are two transactions of the same hash.
\<close>

definition ex_params :: "nat block_params" where
  "ex_params =
     \<lparr>Hash = (\<lambda>a b. 3 * a + 5 * b + 1),
      SerializeHash = (\<lambda>tx. of_nat tx),
      IsCoinBase = (\<lambda>tx. tx = 0),
      CheckTransaction = (\<lambda>tx state. (True, state)),
      GetLegacySigOpCount = (\<lambda>tx. 1),
      GetSerializeSize = (\<lambda>blk. 80 + 100 * length (vtx blk)),
      GetAdjustedTime = 1000,
      MAX_BLOCK_SIZE = 1000000,
      MAX_BLOCK_SIGOPS = 20000\<rparr>"

definition ex_block :: "uint256 \<Rightarrow> uint32 \<Rightarrow> nat list \<Rightarrow> nat CBlock" where
  "ex_block root bits txs =
     \<lparr>hdr_nVersion = 2 * 65536 + 1, hashPrevBlock = 0, hashMerkleRoot = root, nTime = 100,
      nBits = bits, nNonce = 4, auxpow = None, vtx = txs, vMerkleTree = []\<rparr>"

definition ex_state :: CValidationState where
  "ex_state = \<lparr>nDoS = 0, invalid = False\<rparr>"

section \<open>Lemmas on the amount codec\<close>

lemma CompressAmount_exact_loop_spec:
  "CompressAmount_exact_loop n e = (n', e') \<Longrightarrow> e \<le> 9 \<Longrightarrow>
     n = n' * 10 ^ (e' - e) \<and> e \<le> e' \<and> e' \<le> 9 \<and> (e' < 9 \<longrightarrow> n' mod 10 \<noteq> 0)"
proof (induction n e rule: CompressAmount_exact_loop.induct)
  case (1 n e)
  show ?case
  proof (cases "n mod 10 = 0 \<and> e < 9")
    case True
    with "1.prems" have rec: "CompressAmount_exact_loop (n div 10) (e + 1) = (n', e')"
      by (simp add: CompressAmount_exact_loop.simps [of n e])
    from True have "e + 1 \<le> 9" by simp
    from "1.IH" [OF True rec this]
    have ih: "n div 10 = n' * 10 ^ (e' - (e + 1))" "e + 1 \<le> e'" "e' \<le> 9"
      "e' < 9 \<longrightarrow> n' mod 10 \<noteq> 0" by simp_all
    from True have "n = (n div 10) * 10" by presburger
    also have "\<dots> = n' * 10 ^ (e' - (e + 1)) * 10" using ih(1) by simp
    also have "\<dots> = n' * 10 ^ (Suc (e' - (e + 1)))" by simp
    also have "Suc (e' - (e + 1)) = e' - e" using ih(2) by simp
    finally show ?thesis using ih by simp
  next
    case False
    with "1.prems" have "n' = n" "e' = e"
      by (simp_all add: CompressAmount_exact_loop.simps [of n e])
    with False "1.prems" show ?thesis by auto
  qed
qed

lemma DecompressAmount_exact_loop_eq: "DecompressAmount_exact_loop n e = n * 10 ^ e"
  by (induction e arbitrary: n) simp_all

lemma DecompressAmount_exact_lt9:
  assumes "e < 9"
  shows "DecompressAmount_exact (1 + k * 10 + e) = ((k div 9) * 10 + (k mod 9 + 1)) * 10 ^ e"
proof -
  have "(k * 10 + e) mod 10 = e" "(k * 10 + e) div 10 = k" using assms by simp_all
  then show ?thesis
    using assms by (simp add: DecompressAmount_exact_def Let_def DecompressAmount_exact_loop_eq)
qed

lemma DecompressAmount_exact_9:
  "DecompressAmount_exact (1 + k * 10 + 9) = (k + 1) * 10 ^ 9"
proof -
  have "(k * 10 + 9) mod 10 = 9" "(k * 10 + 9) div 10 = k" by simp_all
  then show ?thesis
    by (simp add: DecompressAmount_exact_def Let_def DecompressAmount_exact_loop_eq)
qed

lemma DecompressAmount_exact_CompressAmount_exact: "DecompressAmount_exact (CompressAmount_exact x) = x"
proof (cases "x = 0")
  case True
  then show ?thesis by (simp add: CompressAmount_exact_def DecompressAmount_exact_def)
next
  case False
  obtain n e where loop: "CompressAmount_exact_loop x 0 = (n, e)" by force
  from CompressAmount_exact_loop_spec [OF loop]
  have x: "x = n * 10 ^ e" and e9: "e \<le> 9" and d: "e < 9 \<longrightarrow> n mod 10 \<noteq> 0" by simp_all
  from False x have n0: "n \<noteq> 0" by auto
  show ?thesis
  proof (cases "e < 9")
    case True
    with d have "n mod 10 \<noteq> 0" by simp
    then obtain d' where d': "n mod 10 = Suc d'" by (cases "n mod 10") auto
    have "n mod 10 < 10" by simp
    with d' have d8: "d' < 9" by simp
    define q where "q = n div 10"
    have n: "n = q * 10 + Suc d'" unfolding q_def d' [symmetric] by simp
    have c: "CompressAmount_exact x = 1 + (q * 9 + d') * 10 + e"
      using False loop True d' by (simp add: CompressAmount_exact_def q_def Let_def)
    have "(q * 9 + d') mod 9 = d'" "(q * 9 + d') div 9 = q" using d8 by simp_all
    then have "DecompressAmount_exact (CompressAmount_exact x) = (q * 10 + (d' + 1)) * 10 ^ e"
      unfolding c DecompressAmount_exact_lt9 [OF True] by simp
    then show ?thesis using n x by simp
  next
    case False
    with e9 have e: "e = 9" by simp
    obtain m where m: "n = Suc m" using n0 by (cases n) auto
    have c: "CompressAmount_exact x = 1 + m * 10 + 9"
      using \<open>x \<noteq> 0\<close> loop e m by (simp add: CompressAmount_exact_def)
    show ?thesis
      unfolding c DecompressAmount_exact_9 using x e m by simp
  qed
qed

lemma CompressAmount_loop_step:
  "n mod 10 = 0 \<Longrightarrow> e < 9 \<Longrightarrow> CompressAmount_loop n e = CompressAmount_loop (n div 10) (e + 1)"
  by (subst CompressAmount_loop.simps) auto

lemma CompressAmount_loop_stop:
  "\<not> (n mod 10 = 0 \<and> e < 9) \<Longrightarrow> CompressAmount_loop n e = (n, e)"
  by (subst CompressAmount_loop.simps) auto

lemma CompressAmount_exact_loop_step:
  "n mod 10 = 0 \<Longrightarrow> e < 9 \<Longrightarrow>
     CompressAmount_exact_loop n e = CompressAmount_exact_loop (n div 10) (e + 1)"
  by (subst CompressAmount_exact_loop.simps) auto

lemma CompressAmount_exact_loop_stop:
  "\<not> (n mod 10 = 0 \<and> e < 9) \<Longrightarrow> CompressAmount_exact_loop n e = (n, e)"
  by (subst CompressAmount_exact_loop.simps) auto

lemma word_mod10_unat: "((n :: uint64) mod 10 = 0) = (unat n mod 10 = 0)"
proof -
  have "(n mod 10 = 0) = (unat (n mod 10) = 0)" by (simp add: unat_eq_0)
  then show ?thesis by (simp add: unat_mod)
qed

lemma CompressAmount_loop_unat:
  "CompressAmount_exact_loop (unat n) e = map_prod unat id (CompressAmount_loop n e)"
proof (induction n e rule: CompressAmount_loop.induct)
  case (1 n e)
  show ?case
  proof (cases "n mod 10 = 0 \<and> e < 9")
    case True
    then have a: "n mod 10 = 0" and b: "e < 9" and c: "unat n mod 10 = 0"
      by (simp_all add: word_mod10_unat)
    show ?thesis
      unfolding CompressAmount_loop_step [OF a b] CompressAmount_exact_loop_step [OF c b]
      using "1.IH" [OF True] by (simp add: unat_div)
  next
    case False
    then have "\<not> (unat n mod 10 = 0 \<and> e < 9)" by (simp add: word_mod10_unat)
    then show ?thesis
      using False by (simp add: CompressAmount_loop_stop CompressAmount_exact_loop_stop)
  qed
qed

lemma unat_of_nat64: "k < 2 ^ 64 \<Longrightarrow> unat (of_nat k :: uint64) = k"
  by (simp add: unat_of_nat)

lemma of_nat_unat_div10: "of_nat (unat (n :: uint64) div 10) = n div 10"
  by (simp add: word_unat_eq_iff unat_div uno_simps)

lemma of_nat_unat_mod10: "of_nat (unat (n :: uint64) mod 10) = n mod 10"
proof -
  have "unat n mod 10 < 2 ^ 64" by (rule less_trans [of _ 10]) simp_all
  then show ?thesis by (simp add: word_unat_eq_iff unat_mod unat_of_nat)
qed

lemma CompressAmount_unat:
  assumes "CompressAmount_exact (unat x) < 2 ^ 64"
  shows "unat (CompressAmount x) = CompressAmount_exact (unat x)"
proof (cases "x = 0")
  case True
  then show ?thesis by (simp add: CompressAmount_def CompressAmount_exact_def)
next
  case False
  then have ux: "unat x \<noteq> 0" by (simp add: unat_eq_0)
  obtain n e where w: "CompressAmount_loop x 0 = (n, e)" by force
  then have ex: "CompressAmount_exact_loop (unat x) 0 = (unat n, e)"
    by (simp add: CompressAmount_loop_unat)
  from CompressAmount_exact_loop_spec [OF ex]
  have xne: "unat x = unat n * 10 ^ e" and e9: "e \<le> 9" and d: "e < 9 \<longrightarrow> unat n mod 10 \<noteq> 0"
    by simp_all
  show ?thesis
  proof (cases "e < 9")
    case True
    with d have "unat n mod 10 \<noteq> 0" by simp
    then have d1: "1 \<le> unat n mod 10" by simp
    let ?k = "1 + (unat n div 10 * 9 + unat n mod 10 - 1) * 10 + e"
    have cx: "CompressAmount_exact (unat x) = ?k"
      using ux ex True by (simp add: CompressAmount_exact_def Let_def)
    have "CompressAmount x = 1 + (n div 10 * 9 + n mod 10 - 1) * 10 + of_nat e"
      using False w True by (simp add: CompressAmount_def Let_def)
    also have "\<dots> = of_nat ?k"
      using d1 by (simp add: of_nat_diff of_nat_unat_div10 of_nat_unat_mod10)
    finally have "CompressAmount x = of_nat ?k" .
    then show ?thesis using assms unfolding cx by (simp only: unat_of_nat64)
  next
    case False
    with e9 have e: "e = 9" by simp
    from ux xne have "unat n \<noteq> 0" by auto
    then have n1: "1 \<le> unat n" by simp
    let ?k = "1 + (unat n - 1) * 10 + 9"
    have cx: "CompressAmount_exact (unat x) = ?k"
      using ux ex e by (simp add: CompressAmount_exact_def)
    have "CompressAmount x = 1 + (n - 1) * 10 + 9"
      using \<open>x \<noteq> 0\<close> w e by (simp add: CompressAmount_def)
    also have "\<dots> = of_nat ?k"
      using n1 by (simp add: of_nat_diff)
    finally have "CompressAmount x = of_nat ?k" .
    then show ?thesis using assms unfolding cx by (simp only: unat_of_nat64)
  qed
qed

lemma DecompressAmount_loop_eq: "DecompressAmount_loop n e = n * 10 ^ e"
  by (induction e arbitrary: n) simp_all

lemma of_nat_unat_div9: "of_nat (unat (n :: uint64) div 9) = n div 9"
  by (simp add: word_unat_eq_iff unat_div uno_simps)

lemma of_nat_unat_mod9: "of_nat (unat (n :: uint64) mod 9) = n mod 9"
proof -
  have "unat n mod 9 < 2 ^ 64" by (rule less_trans [of _ 9]) simp_all
  then show ?thesis by (simp add: word_unat_eq_iff unat_mod unat_of_nat)
qed

lemma DecompressAmount_exact_unfold:
  "x0 \<noteq> 0 \<Longrightarrow> DecompressAmount_exact x0 =
     (if (x0 - 1) mod 10 < 9
      then ((x0 - 1) div 10 div 9 * 10 + ((x0 - 1) div 10 mod 9 + 1))
      else (x0 - 1) div 10 + 1) * 10 ^ ((x0 - 1) mod 10)"
  by (simp add: DecompressAmount_exact_def Let_def DecompressAmount_exact_loop_eq)

lemma DecompressAmount_unfold:
  "x0 \<noteq> 0 \<Longrightarrow> DecompressAmount x0 =
     (if unat ((x0 - 1) mod 10) < 9
      then ((x0 - 1) div 10 div 9 * 10 + ((x0 - 1) div 10 mod 9 + 1))
      else (x0 - 1) div 10 + 1) * 10 ^ unat ((x0 - 1) mod 10)"
  by (simp add: DecompressAmount_def Let_def DecompressAmount_loop_eq)

lemma DecompressAmount_unat:
  assumes "DecompressAmount_exact (unat y) < 2 ^ 64"
  shows "unat (DecompressAmount y) = DecompressAmount_exact (unat y)"
proof (cases "y = 0")
  case True
  then show ?thesis by (simp add: DecompressAmount_def DecompressAmount_exact_def)
next
  case False
  then have uy: "unat y \<noteq> 0" by (simp add: unat_eq_0)
  have u1: "unat (y - 1) = unat y - 1" using False by (rule unat_minus_one)
  define u where "u = unat y - 1"
  have e: "unat ((y - 1) mod 10) = u mod 10" by (simp add: unat_mod u1 u_def)
  have k: "(y - 1) div 10 = of_nat (u div 10)"
    unfolding u_def u1 [symmetric] by (simp only: of_nat_unat_div10)
  have k9: "unat (of_nat (u div 10) :: uint64) = u div 10"
    unfolding u_def u1 [symmetric] by (simp add: uno_simps)
  have w: "DecompressAmount y = of_nat (DecompressAmount_exact (unat y))"
  proof -
    have "(of_nat (u div 10) :: uint64) div 9 = of_nat (u div 10 div 9)"
      using of_nat_unat_div9 [of "of_nat (u div 10)"] by (simp only: k9)
    moreover have "(of_nat (u div 10) :: uint64) mod 9 = of_nat (u div 10 mod 9)"
      using of_nat_unat_mod9 [of "of_nat (u div 10)"] by (simp only: k9)
    ultimately show ?thesis
      unfolding DecompressAmount_unfold [OF False] DecompressAmount_exact_unfold [OF uy] e k
        u_def [symmetric]
      by (simp add: add_ac)
  qed
  show ?thesis unfolding w using assms by (rule unat_of_nat64)
qed

lemma DecompressAmount_CompressAmount:
  assumes "CompressAmount_exact (unat x) < 2 ^ 64"
  shows "DecompressAmount (CompressAmount x) = x"
proof -
  have c: "unat (CompressAmount x) = CompressAmount_exact (unat x)"
    using assms by (rule CompressAmount_unat)
  have "DecompressAmount_exact (unat (CompressAmount x)) = unat x"
    unfolding c by (rule DecompressAmount_exact_CompressAmount_exact)
  moreover have "unat x < 2 ^ 64" using unsigned_less [of x] by simp
  ultimately have "unat (DecompressAmount (CompressAmount x)) = unat x"
    using DecompressAmount_unat [of "CompressAmount x"] by simp
  then show ?thesis by (simp add: word_unat_eq_iff)
qed

lemma CompressAmount_exact_le: "CompressAmount_exact x \<le> 9 * x"
proof (cases "x = 0")
  case True
  then show ?thesis by (simp add: CompressAmount_exact_def)
next
  case False
  obtain n e where loop: "CompressAmount_exact_loop x 0 = (n, e)" by force
  from CompressAmount_exact_loop_spec [OF loop]
  have x: "x = n * 10 ^ e" and e9: "e \<le> 9" and d: "e < 9 \<longrightarrow> n mod 10 \<noteq> 0" by simp_all
  from False x have n0: "n \<noteq> 0" by auto
  show ?thesis
  proof (cases "e < 9")
    case True
    with d have "n mod 10 \<noteq> 0" by simp
    then obtain d' where d': "n mod 10 = Suc d'" by (cases "n mod 10") auto
    have "n mod 10 < 10" by simp
    with d' have d8: "d' < 9" by simp
    define q where "q = n div 10"
    have n: "n = q * 10 + Suc d'" unfolding q_def d' [symmetric] by simp
    have c: "CompressAmount_exact x = 1 + (q * 9 + d') * 10 + e"
      using False loop True d' by (simp add: CompressAmount_exact_def q_def Let_def)
    show ?thesis
    proof (cases "e = 0")
      case True
      then show ?thesis unfolding c using x n d8 by simp
    next
      case False
      then have "(10::nat) ^ 1 \<le> 10 ^ e" by (intro power_increasing) simp_all
      then have "n * 10 \<le> n * 10 ^ e" by simp
      then have "n * 10 \<le> x" using x by simp
      then show ?thesis unfolding c using n d8 True by simp
    qed
  next
    case False
    with e9 have e: "e = 9" by simp
    have c: "CompressAmount_exact x = 1 + (n - 1) * 10 + 9"
      using \<open>x \<noteq> 0\<close> loop e by (simp add: CompressAmount_exact_def)
    have "n * 10 \<le> x" using x e by simp
    then show ?thesis unfolding c using n0 by simp
  qed
qed

lemma valid_amount_fits:
  assumes "unat (x :: uint64) \<le> 2049638230412172401"
  shows "CompressAmount_exact (unat x) < 2 ^ 64"
proof -
  have "CompressAmount_exact (unat x) \<le> 9 * unat x" by (rule CompressAmount_exact_le)
  also have "\<dots> \<le> 9 * 2049638230412172401" using assms by simp
  also have "\<dots> < 2 ^ 64" by simp
  finally show ?thesis .
qed

text \<open>
  Without the hypothesis the round trip fails: the largest 64-bit amount wraps in
  \<open>CompressAmount\<close> and decodes to a different amount.
\<close>

lemma CompressAmount_wraps: "DecompressAmount (CompressAmount 18446744073709551615) \<noteq> 18446744073709551615"
  by code_simp

text \<open>
  C1. \<open>CompressAmount 0 = 0\<close>, and for every 64-bit amount \<open>x\<close> whose encoding is
  representable, that is, whose encoding computed without wrap-around is below \<open>2^64\<close>:
  the 64-bit \<open>CompressAmount\<close> returns that very encoding (nothing overflowed), the 64-bit
  \<open>DecompressAmount\<close> of it is \<open>x\<close> again, and it is what the decoder computes without
  wrap-around (nothing overflowed there either). By \<open>valid_amount_fits\<close> every amount up
  to \<open>(2^64 - 1) div 9\<close> is such an \<open>x\<close>.
\<close>

theorem C1_amount_roundtrip:
  "CompressAmount 0 = 0 \<and>
   (CompressAmount_exact (unat x) < 2 ^ 64 \<longrightarrow>
      unat (CompressAmount x) = CompressAmount_exact (unat x) \<and>
      DecompressAmount (CompressAmount x) = x \<and>
      unat (DecompressAmount (CompressAmount x)) =
        DecompressAmount_exact (unat (CompressAmount x)))"
proof (intro conjI impI)
  show "CompressAmount 0 = 0" by (simp add: CompressAmount_def)
next
  assume fits: "CompressAmount_exact (unat x) < 2 ^ 64"
  show c: "unat (CompressAmount x) = CompressAmount_exact (unat x)"
    using fits by (rule CompressAmount_unat)
  show r: "DecompressAmount (CompressAmount x) = x"
    using fits by (rule DecompressAmount_CompressAmount)
  show "unat (DecompressAmount (CompressAmount x)) =
          DecompressAmount_exact (unat (CompressAmount x))"
    unfolding r c by (simp only: DecompressAmount_exact_CompressAmount_exact)
qed

theorem C1_amount_roundtrip_witness:
  "CompressAmount_exact (unat (1230000 :: uint64)) < 2 ^ 64 \<and>
   CompressAmount 1230000 = 1105 \<and>
   DecompressAmount (CompressAmount 1230000) = 1230000"
proof -
  have h: "CompressAmount_exact (unat (1230000 :: uint64)) < 2 ^ 64"
    by (simp add: CompressAmount_exact_def CompressAmount_exact_loop.simps)
  have v: "CompressAmount 1230000 = 1105"
    by (simp add: CompressAmount_def CompressAmount_loop.simps)
  from C1_amount_roundtrip [of 1230000] h have "DecompressAmount (CompressAmount 1230000) = 1230000"
    by (rule conjunct2 [THEN mp, THEN conjunct2, THEN conjunct1])
  with h v show ?thesis by (intro conjI)
qed

section \<open>Lemmas on coin entries\<close>

lemma IsNull_SetNull: "IsNull (SetNull t)"
  by (simp add: IsNull_def SetNull_def)

lemma Cleanup_loop_spec:
  "\<exists>k\<le>length vo. Cleanup_loop vo = take k vo \<and>
      (\<forall>j. k \<le> j \<and> j < length vo \<longrightarrow> IsNull (vo ! j)) \<and>
      (Cleanup_loop vo = [] \<or> \<not> IsNull (last (Cleanup_loop vo)))"
proof (induction vo rule: Cleanup_loop.induct)
  case (1 vo)
  show ?case
  proof (cases "vo \<noteq> [] \<and> IsNull (last vo)")
    case True
    then have step: "Cleanup_loop vo = Cleanup_loop (butlast vo)"
      by (subst Cleanup_loop.simps) simp
    from "1.IH" [OF True] obtain k where k: "k \<le> length (butlast vo)"
      "Cleanup_loop (butlast vo) = take k (butlast vo)"
      "\<forall>j. k \<le> j \<and> j < length (butlast vo) \<longrightarrow> IsNull (butlast vo ! j)"
      "Cleanup_loop (butlast vo) = [] \<or> \<not> IsNull (last (Cleanup_loop (butlast vo)))"
      by blast
    from True have len: "0 < length vo" by simp
    have a: "k \<le> length vo" using k(1) by simp
    have k1: "k \<le> length vo - 1" using k(1) by simp
    then have "take k (take (length vo - 1) vo) = take k vo" by (simp add: min_absorb1)
    then have b: "Cleanup_loop vo = take k vo"
      unfolding step k(2) by (simp only: butlast_conv_take)
    have c: "IsNull (vo ! j)" if "k \<le> j \<and> j < length vo" for j
    proof (cases "j < length (butlast vo)")
      case True
      with that k(3) have "IsNull (butlast vo ! j)" by blast
      then show ?thesis by (simp only: nth_butlast [OF True])
    next
      case False
      then have "length vo - 1 \<le> j" by simp
      with that have "j = length vo - 1" by linarith
      moreover from \<open>vo \<noteq> [] \<and> IsNull (last vo)\<close> have "IsNull (vo ! (length vo - 1))"
        by (auto simp: last_conv_nth)
      ultimately show ?thesis by simp
    qed
    from a b c k(4) step show ?thesis by auto
  next
    case False
    then have stop: "Cleanup_loop vo = vo"
      by (subst Cleanup_loop.simps) auto
    show ?thesis
      unfolding stop using False by (intro exI [of _ "length vo"]) auto
  qed
qed

text \<open>
  C8. \<open>Spend\<close> fails exactly when the output index is out of range or the output at
  the index is already null, and then returns the entry and the undo record as they
  were. When it succeeds, the undo record holds the output that was live at the index;
  the new outputs are the old ones with that slot set to null and then cut after some
  position \<open>k\<close>, everything from \<open>k\<close> on being null and the last output kept (if any) not
  null; the other fields of the entry are unchanged; and when no output is left the undo
  record carries the entry's version, coinbase flag and height (otherwise it is the
  fresh record of the output alone).
\<close>

theorem C8_Spend:
  assumes "Spend c out undo = (ok, c', undo')"
  shows "(\<not> ok \<longleftrightarrow> length (vout c) \<le> unat (outpoint_n out) \<or> IsNull (vout c ! unat (outpoint_n out))) \<and>
         (\<not> ok \<longrightarrow> c' = c \<and> undo' = undo) \<and>
         (ok \<longrightarrow>
            txout undo' = vout c ! unat (outpoint_n out) \<and>
            (\<exists>k\<le>length (vout c).
               vout c' = take k ((vout c)[unat (outpoint_n out) := SetNull (vout c ! unat (outpoint_n out))]) \<and>
               (\<forall>j. k \<le> j \<and> j < length (vout c) \<longrightarrow>
                  IsNull ((vout c)[unat (outpoint_n out) := SetNull (vout c ! unat (outpoint_n out))] ! j)) \<and>
               (vout c' = [] \<or> \<not> IsNull (last (vout c')))) \<and>
            IsNull ((vout c)[unat (outpoint_n out) := SetNull (vout c ! unat (outpoint_n out))] ! unat (outpoint_n out)) \<and>
            fCoinBase c' = fCoinBase c \<and> nHeight c' = nHeight c \<and> nVersion c' = nVersion c \<and>
            (vout c' = [] \<longrightarrow>
               undo_nVersion undo' = nVersion c \<and> undo_fCoinBase undo' = fCoinBase c \<and>
               undo_nHeight undo' = nHeight c) \<and>
            (vout c' \<noteq> [] \<longrightarrow> undo' = CTxInUndo_of (vout c ! unat (outpoint_n out))))"
proof (cases "length (vout c) \<le> unat (outpoint_n out) \<or> IsNull (vout c ! unat (outpoint_n out))")
  case True
  then have "Spend c out undo = (False, c, undo)"
    by (cases "length (vout c) \<le> unat (outpoint_n out)") (simp_all add: Spend_def)
  with assms have "\<not> ok" "c' = c" "undo' = undo" by simp_all
  with True show ?thesis by simp
next
  case False
  define xs where "xs = (vout c)[unat (outpoint_n out) := SetNull (vout c ! unat (outpoint_n out))]"
  have len: "length xs = length (vout c)" by (simp add: xs_def)
  from False assms have ok: "ok" and c': "c' = Cleanup (c\<lparr>vout := xs\<rparr>)"
    by (auto simp: Spend_def Let_def xs_def split: if_splits)
  have v: "vout c' = Cleanup_loop xs" by (simp add: c' Cleanup_def)
  from False assms have u: "undo' = (if vout c' = []
        then (CTxInUndo_of (vout c ! unat (outpoint_n out)))\<lparr>undo_nHeight := nHeight c', undo_fCoinBase := fCoinBase c',
                                 undo_nVersion := nVersion c'\<rparr>
        else CTxInUndo_of (vout c ! unat (outpoint_n out)))"
    by (auto simp: Spend_def Let_def xs_def split: if_splits)
  have meta: "fCoinBase c' = fCoinBase c" "nHeight c' = nHeight c" "nVersion c' = nVersion c"
    by (simp_all add: c' Cleanup_def)
  have nul: "IsNull (xs ! unat (outpoint_n out))"
    using False by (simp add: xs_def IsNull_SetNull)
  from Cleanup_loop_spec [of xs] obtain k where k: "k \<le> length xs" "Cleanup_loop xs = take k xs"
    "\<forall>j. k \<le> j \<and> j < length xs \<longrightarrow> IsNull (xs ! j)"
    "Cleanup_loop xs = [] \<or> \<not> IsNull (last (Cleanup_loop xs))" by blast
  have trim: "\<exists>k\<le>length (vout c). vout c' = take k xs \<and>
      (\<forall>j. k \<le> j \<and> j < length (vout c) \<longrightarrow> IsNull (xs ! j)) \<and>
      (vout c' = [] \<or> \<not> IsNull (last (vout c')))"
    using k unfolding v len by blast
  show ?thesis
    unfolding xs_def [symmetric]
    using False ok trim nul meta u by (simp add: CTxInUndo_of_def)
qed

lemma unat_slot:
  assumes "8 * unat (b :: uint32) + 9 < 2 ^ 32" and "unat (i :: uint32) < 8"
  shows "unat (2 + b * 8 + i) = 2 + unat b * 8 + unat i"
  using assms by (simp add: unat_word_ariths) 

lemma unat_slot0:
  assumes "8 * unat (b :: uint32) + 2 < 2 ^ 32"
  shows "unat (2 + b * 8) = 2 + unat b * 8"
  using assms by (simp add: unat_word_ariths) 

lemma CalcMaskSize_inner_spec:
  assumes "8 * unat b + 9 < 2 ^ 32"
  shows "CalcMaskSize_inner vo b i fZero =
           (fZero \<and> (\<forall>k. unat i \<le> k \<and> k < 8 \<and> 2 + unat b * 8 + k < length vo
                          \<longrightarrow> IsNull (vo ! (2 + unat b * 8 + k))))"
  using assms
proof (induction vo b i fZero rule: CalcMaskSize_inner.induct)
  case (1 vo b i fZero)
  show ?case
  proof (cases "i < 8 \<and> unat (2 + b * 8 + i) < length vo")
    case True
    then have i8: "unat i < 8" by (simp add: word_less_nat_alt)
    have slot: "unat (2 + b * 8 + i) = 2 + unat b * 8 + unat i"
      using "1.prems" i8 by (rule unat_slot)
    have suc: "unat (i + 1) = Suc (unat i)" using i8 by (simp add: unat_word_ariths)
    have step: "CalcMaskSize_inner vo b i fZero =
        CalcMaskSize_inner vo b (i + 1)
          (if \<not> IsNull (vo ! unat (2 + b * 8 + i)) then False else fZero)"
      using True by (subst CalcMaskSize_inner.simps) simp
    have split: "(\<forall>k. unat i \<le> k \<and> k < 8 \<and> 2 + unat b * 8 + k < length vo
                          \<longrightarrow> IsNull (vo ! (2 + unat b * 8 + k))) =
       (IsNull (vo ! (2 + unat b * 8 + unat i)) \<and>
        (\<forall>k. Suc (unat i) \<le> k \<and> k < 8 \<and> 2 + unat b * 8 + k < length vo
                          \<longrightarrow> IsNull (vo ! (2 + unat b * 8 + k))))" (is "?L = (?A \<and> ?R)")
    proof
      assume l: ?L
      have "?A" using l True i8 slot by auto
      moreover have "?R" using l by auto
      ultimately show "?A \<and> ?R" ..
    next
      assume r: "?A \<and> ?R"
      show ?L
      proof (intro allI impI)
        fix k assume k: "unat i \<le> k \<and> k < 8 \<and> 2 + unat b * 8 + k < length vo"
        show "IsNull (vo ! (2 + unat b * 8 + k))"
        proof (cases "k = unat i")
          case True
          with r show ?thesis by simp
        next
          case False
          with k have "Suc (unat i) \<le> k" by simp
          with r k show ?thesis by blast
        qed
      qed
    qed
    have "CalcMaskSize_inner vo b i fZero =
        ((if \<not> IsNull (vo ! unat (2 + b * 8 + i)) then False else fZero) \<and>
         (\<forall>k. unat (i + 1) \<le> k \<and> k < 8 \<and> 2 + unat b * 8 + k < length vo
                          \<longrightarrow> IsNull (vo ! (2 + unat b * 8 + k))))"
      unfolding step by (rule "1.IH" [OF True "1.prems"])
    also have "\<dots> = (fZero \<and> ?A \<and> ?R)"
      unfolding suc slot by auto
    finally show ?thesis unfolding split .
  next
    case False
    then have stop: "CalcMaskSize_inner vo b i fZero = fZero"
      by (subst CalcMaskSize_inner.simps) auto
    have "\<not> (unat i \<le> k \<and> k < 8 \<and> 2 + unat b * 8 + k < length vo)" for k
    proof (cases "i < 8")
      case True
      then have i8: "unat i < 8" by (simp add: word_less_nat_alt)
      with False True "1.prems" have "length vo \<le> 2 + unat b * 8 + unat i"
        by (simp add: unat_slot)
      then show ?thesis by simp
    next
      case False
      then have "8 \<le> unat i" by (simp add: word_less_nat_alt)
      then show ?thesis by simp
    qed
    then show ?thesis unfolding stop by blast
  qed
qed

lemma CalcMaskSize_inner_used:
  assumes "8 * unat b + 9 < 2 ^ 32"
  shows "(\<not> CalcMaskSize_inner vo b 0 True) = mask_byte_used vo (unat b)"
  unfolding CalcMaskSize_inner_spec [OF assms] mask_byte_used_def by auto

lemma CalcMaskSize_loop_spec:
  assumes len: "length vo \<le> 2 ^ 32 - 6"
  shows "B \<le> (length vo + 5) div 8 \<Longrightarrow>
     CalcMaskSize_loop vo (of_nat B) l z =
       Some (if filter (mask_byte_used vo) [B..<(length vo + 5) div 8] = [] then l
             else of_nat (last (filter (mask_byte_used vo) [B..<(length vo + 5) div 8])) + 1,
             z + of_nat (length (filter (mask_byte_used vo) [B..<(length vo + 5) div 8])))"
proof (induction "(length vo + 5) div 8 - B" arbitrary: B l z)
  case 0
  then have B: "B = (length vo + 5) div 8" by simp
  from len have "length vo \<le> 4294967290" by simp
  then have "8 * ((length vo + 5) div 8) + 2 < (4294967296 :: nat)" by presburger
  then have "8 * B + 2 < 2 ^ 32" unfolding B by simp
  moreover from this have ub: "unat (of_nat B :: uint32) = B" by (simp add: unat_of_nat)
  ultimately have "unat (2 + (of_nat B :: uint32) * 8) = 2 + B * 8"
    using unat_slot0 [of "of_nat B"] by simp
  moreover have "length vo \<le> 2 + B * 8" unfolding B by presburger
  ultimately have "\<not> unat (2 + (of_nat B :: uint32) * 8) < length vo" by simp
  then have "CalcMaskSize_loop vo (of_nat B) l z = Some (l, z)"
    by (subst CalcMaskSize_loop.simps) simp
  then show ?case unfolding B by simp
next
  case (Suc d)
  let ?nb = "(length vo + 5) div 8"
  from Suc.hyps(2) have B: "B < ?nb" by simp
  then have lt: "2 + B * 8 < length vo" by presburger
  from len have "length vo \<le> 4294967290" by simp
  with lt have "8 * B + 9 < (4294967296 :: nat)" by presburger
  then have small: "8 * B + 9 < 2 ^ 32" by simp
  then have ub: "unat (of_nat B :: uint32) = B" by (simp add: unat_of_nat)
  have c: "unat (2 + (of_nat B :: uint32) * 8) < length vo"
    using unat_slot0 [of "of_nat B"] small lt ub by simp
  have used: "(\<not> CalcMaskSize_inner vo (of_nat B) 0 True) = mask_byte_used vo B"
    using CalcMaskSize_inner_used [of "of_nat B" vo] small ub by simp
  have up: "[B..<?nb] = B # [Suc B..<?nb]" using B by (simp add: upt_conv_Cons)
  have d: "d = ?nb - Suc B" using Suc.hyps(2) by simp
  have sb: "Suc B \<le> ?nb" using B by simp
  have nxt: "(of_nat B :: uint32) + 1 = of_nat (Suc B)" by simp
  show ?case
  proof (cases "mask_byte_used vo B")
    case True
    have "CalcMaskSize_loop vo (of_nat B) l z =
            CalcMaskSize_loop vo (of_nat (Suc B)) (of_nat (Suc B)) (z + 1)"
      using c used True by (subst CalcMaskSize_loop.simps) (simp only: nxt if_True)
    then show ?thesis
      unfolding Suc.hyps(1) [OF d sb] up using True by simp
  next
    case False
    have "CalcMaskSize_loop vo (of_nat B) l z =
            CalcMaskSize_loop vo (of_nat (Suc B)) l z"
      using c used False by (subst CalcMaskSize_loop.simps) (simp only: nxt if_True if_False)
    then show ?thesis
      unfolding Suc.hyps(1) [OF d sb] up using False by simp
  qed
qed

lemma mask_used_bytes_bound:
  "b \<in> set (mask_used_bytes vo) \<Longrightarrow> b < (length vo + 5) div 8"
  by (simp add: mask_used_bytes_def)

lemma mask_byteCount_le: "mask_byteCount vo \<le> (length vo + 5) div 8"
proof (cases "mask_used_bytes vo = []")
  case True
  then show ?thesis by (simp add: mask_byteCount_def)
next
  case False
  then have "last (mask_used_bytes vo) \<in> set (mask_used_bytes vo)" by simp
  then have "last (mask_used_bytes vo) < (length vo + 5) div 8" by (rule mask_used_bytes_bound)
  with False show ?thesis by (simp add: mask_byteCount_def)
qed

lemma mask_nonZeroByteCount_le: "mask_nonZeroByteCount vo \<le> (length vo + 5) div 8"
proof -
  have "length (filter (mask_byte_used vo) [0..<(length vo + 5) div 8]) \<le> length [0..<(length vo + 5) div 8]"
    by (rule length_filter_le)
  then show ?thesis by (simp add: mask_nonZeroByteCount_def mask_used_bytes_def)
qed

text \<open>
  C9. For every entry of at most \<open>2^32 - 6\<close> outputs (beyond which the 32-bit index of the
  outer loop wraps), \<open>CalcMaskSize\<close> returns, and it adds to \<open>nBytes\<close> the index of the last
  used bitmask byte plus 1 (0 if no byte is used) and to \<open>nNonzeroBytes\<close> the number of
  used bytes; called with both counters 0 it yields exactly these two numbers. A byte
  is used as \<open>mask_byte_used\<close> says: outputs 0 and 1 are outside the bitmask, byte \<open>b\<close> covers
  slots \<open>2+8b .. 2+8b+7\<close>. The function takes the entry and returns no entry: it is
  read-only.
\<close>

theorem C9_CalcMaskSize:
  assumes "length (vout c) \<le> 2 ^ 32 - 6"
  shows "CalcMaskSize c nBytes nNonzeroBytes =
           Some (nBytes + of_nat (mask_byteCount (vout c)),
                 nNonzeroBytes + of_nat (mask_nonZeroByteCount (vout c))) \<and>
         (\<exists>byteCount nonZeroByteCount.
            CalcMaskSize c 0 0 = Some (byteCount, nonZeroByteCount) \<and>
            unat byteCount = mask_byteCount (vout c) \<and>
            unat nonZeroByteCount = mask_nonZeroByteCount (vout c))"
proof -
  have loop: "CalcMaskSize_loop (vout c) 0 0 z =
      Some (of_nat (mask_byteCount (vout c)), z + of_nat (mask_nonZeroByteCount (vout c)))" for z
    using CalcMaskSize_loop_spec [OF assms, of 0 0 z]
    by (simp add: mask_byteCount_def mask_nonZeroByteCount_def mask_used_bytes_def)
  have gen: "CalcMaskSize c a z =
           Some (a + of_nat (mask_byteCount (vout c)),
                 z + of_nat (mask_nonZeroByteCount (vout c)))" for a z
    by (simp add: CalcMaskSize_def loop)
  have "(length (vout c) + 5) div 8 < 2 ^ 32" using assms by simp
  then have b1: "mask_byteCount (vout c) < 2 ^ 32" and b2: "mask_nonZeroByteCount (vout c) < 2 ^ 32"
    using mask_byteCount_le [of "vout c"] mask_nonZeroByteCount_le [of "vout c"] by simp_all
  have "unat (of_nat (mask_byteCount (vout c)) :: uint32) = mask_byteCount (vout c)"
       "unat (of_nat (mask_nonZeroByteCount (vout c)) :: uint32) = mask_nonZeroByteCount (vout c)"
    using b1 b2 by (simp_all add: unat_of_nat)
  then show ?thesis using gen by simp
qed

lemma Cleanup_loop_Nil: "Cleanup_loop [] = []"
  by (subst Cleanup_loop.simps) simp

lemma Cleanup_loop_snoc_null: "IsNull x \<Longrightarrow> Cleanup_loop (xs @ [x]) = Cleanup_loop xs"
  by (subst Cleanup_loop.simps) simp

lemma Cleanup_loop_snoc_live: "\<not> IsNull x \<Longrightarrow> Cleanup_loop (xs @ [x]) = xs @ [x]"
  by (subst Cleanup_loop.simps) simp

lemma ex_txout_null: "IsNull (ex_txout v) = (v = -1)"
  by (simp add: IsNull_def ex_txout_def)

lemma ex_spend_last:
  "Spend (ex_coins [-1, 50]) \<lparr>outpoint_hash = 7, outpoint_n = 1\<rparr> (CTxInUndo_of (ex_txout 0)) =
     (True, ex_coins [],
      \<lparr>txout = ex_txout 50, undo_fCoinBase = True, undo_nHeight = 10, undo_nVersion = 1\<rparr>)"
proof -
  have "Cleanup_loop [ex_txout (-1), SetNull (ex_txout 50)] = []"
    using Cleanup_loop_snoc_null [of "SetNull (ex_txout 50)" "[ex_txout (-1)]"]
          Cleanup_loop_snoc_null [of "ex_txout (-1)" "[]"]
    by (simp add: IsNull_SetNull ex_txout_null Cleanup_loop_Nil)
  then show ?thesis
    by (simp add: Spend_def ex_coins_def Let_def Cleanup_def ex_txout_null CTxInUndo_of_def)
qed

lemma ex_spend_twice:
  "Spend (ex_coins [-1, 50]) \<lparr>outpoint_hash = 7, outpoint_n = 0\<rparr> (CTxInUndo_of (ex_txout 0)) =
     (False, ex_coins [-1, 50], CTxInUndo_of (ex_txout 0))"
  by (simp add: Spend_def ex_coins_def ex_txout_null)

text \<open>
  C8 at a concrete entry with outputs (null, 50): spending output 1 empties the entry
  and the undo record carries the metadata; spending output 0, already null, fails and
  changes nothing.
\<close>

theorem C8_Spend_witness:
  "Spend (ex_coins [-1, 50]) \<lparr>outpoint_hash = 7, outpoint_n = 1\<rparr> (CTxInUndo_of (ex_txout 0)) =
     (True, ex_coins [],
      \<lparr>txout = ex_txout 50, undo_fCoinBase = True, undo_nHeight = 10, undo_nVersion = 1\<rparr>) \<and>
   vout (ex_coins []) = [] \<and>
   undo_nVersion \<lparr>txout = ex_txout 50, undo_fCoinBase = True, undo_nHeight = 10, undo_nVersion = 1\<rparr>
     = nVersion (ex_coins [-1, 50]) \<and>
   Spend (ex_coins [-1, 50]) \<lparr>outpoint_hash = 7, outpoint_n = 0\<rparr> (CTxInUndo_of (ex_txout 0)) =
     (False, ex_coins [-1, 50], CTxInUndo_of (ex_txout 0)) \<and>
   IsNull (vout (ex_coins [-1, 50]) ! unat (outpoint_n \<lparr>outpoint_hash = 7, outpoint_n = 0\<rparr>))"
proof -
  have e: "vout (ex_coins []) = []" by (simp add: ex_coins_def)
  from C8_Spend [OF ex_spend_last] e
  have a: "undo_nVersion \<lparr>txout = ex_txout 50, undo_fCoinBase = True, undo_nHeight = 10, undo_nVersion = 1\<rparr>
     = nVersion (ex_coins [-1, 50])" by blast
  have l: "\<not> length (vout (ex_coins [-1, 50])) \<le> unat (outpoint_n \<lparr>outpoint_hash = 7, outpoint_n = 0\<rparr>)"
    by (simp add: ex_coins_def)
  from C8_Spend [OF ex_spend_twice] l
  have b: "IsNull (vout (ex_coins [-1, 50]) ! unat (outpoint_n \<lparr>outpoint_hash = 7, outpoint_n = 0\<rparr>))"
    by blast
  from ex_spend_last e a ex_spend_twice b show ?thesis by (intro conjI)
qed

lemma ex_mask_used: "mask_used_bytes (vout (ex_coins [5, -1, -1, -1, -1, -1, -1, -1, -1, -1, 7, -1])) = [1]"
  by code_simp

text \<open>
  C9 at an entry of twelve outputs of which only outputs 0 and 10 are live: byte 0 is
  unused, byte 1 is used, so the byte count is 2 and one byte is non-zero.
\<close>

theorem C9_CalcMaskSize_witness:
  "length (vout (ex_coins [5, -1, -1, -1, -1, -1, -1, -1, -1, -1, 7, -1])) \<le> 2 ^ 32 - 6 \<and>
   CalcMaskSize (ex_coins [5, -1, -1, -1, -1, -1, -1, -1, -1, -1, 7, -1]) 0 0 = Some (2, 1) \<and>
   CalcMaskSize (ex_coins [5, -1, -1, -1, -1, -1, -1, -1, -1, -1, 7, -1]) 10 20 = Some (12, 21)"
proof -
  let ?c = "ex_coins [5, -1, -1, -1, -1, -1, -1, -1, -1, -1, 7, -1]"
  have l: "length (vout ?c) \<le> 2 ^ 32 - 6" by (simp add: ex_coins_def)
  have m: "mask_byteCount (vout ?c) = 2" "mask_nonZeroByteCount (vout ?c) = 1"
    by (simp_all add: mask_byteCount_def mask_nonZeroByteCount_def ex_mask_used)
  from C9_CalcMaskSize [OF l, of 0 0]
  have a: "CalcMaskSize ?c 0 0 = Some (2, 1)" unfolding m by simp
  from C9_CalcMaskSize [OF l, of 10 20]
  have b: "CalcMaskSize ?c 10 20 = Some (12, 21)" unfolding m by simp
  from l a b show ?thesis by (intro conjI)
qed

section \<open>Lemmas on the proof-of-work checks\<close>

lemma CheckProofOfWork_log: "CheckProofOfWork p hash bits = (True, lg) \<Longrightarrow> lg = []"
  by (auto simp: CheckProofOfWork_def error_def Let_def split: if_splits)

lemma CheckProofOfWork_True: "fst (CheckProofOfWork p hash bits) \<Longrightarrow> CheckProofOfWork p hash bits = (True, [])"
  by (auto simp: CheckProofOfWork_def error_def Let_def split: if_splits)

lemma ex_pow_11: "CheckProofOfWork (ex_chain t) 11 1000 = (True, [])"
  by (simp add: CheckProofOfWork_def ex_chain_def Let_def error_def)

lemma ex_pow_5: "CheckProofOfWork (ex_chain t) 5 1000 = (True, [])"
  by (simp add: CheckProofOfWork_def ex_chain_def Let_def error_def)

lemma ex_GetHash: "GetHash (ex_chain t) (ex_header c a) = 11"
  by (simp add: GetHash_def ex_chain_def ex_header_def)

lemma ex_GetChainID: "GetChainID (ex_chain t) (ex_header c a) = c"
  by (simp add: GetChainID_def ex_chain_def ex_header_def)

lemma ex_nBits: "nBits (ex_header c a) = 1000" "auxpow (ex_header c a) = a"
  by (simp_all add: ex_header_def)

lemma ex_chain_sel: "TestNet (ex_chain t) = t" "GetOurChainID (ex_chain t) = 2"
  "GetAuxPowStartBlock (ex_chain t) = (if t then 0 else 1000000)"
  by (simp_all add: ex_chain_def GetAuxPowStartBlock_def)

text \<open>
  C5, amended. At or above the activation height, off the test network and at a height
  other than \<open>INT_MAX\<close>, a header whose chain ID differs from our own fails, with the
  reason "block does not have our chain ID" and before any proof-of-work check.
\<close>

theorem C5_chain_id_enforced:
  assumes "height \<ge> GetAuxPowStartBlock p" and "\<not> TestNet p" and "height \<noteq> INT_MAX"
    and "GetChainID p h \<noteq> GetOurChainID p"
  shows "CBlockHeader_CheckProofOfWork p h height =
           (False, [''CheckProofOfWork() : block does not have our chain ID''])"
  using assms by (simp add: CBlockHeader_CheckProofOfWork_def error_def)

text \<open>C5, amended, at height 1000000 on the main network with chain ID 3 against our 2.\<close>

theorem C5_chain_id_enforced_witness:
  "1000000 \<ge> GetAuxPowStartBlock (ex_chain False) \<and> \<not> TestNet (ex_chain False) \<and>
   (1000000 :: int) \<noteq> INT_MAX \<and>
   GetChainID (ex_chain False) (ex_header 3 None) \<noteq> GetOurChainID (ex_chain False) \<and>
   CBlockHeader_CheckProofOfWork (ex_chain False) (ex_header 3 None) 1000000 =
     (False, [''CheckProofOfWork() : block does not have our chain ID''])"
proof -
  have a: "1000000 \<ge> GetAuxPowStartBlock (ex_chain False)" by (simp add: ex_chain_sel)
  have b: "\<not> TestNet (ex_chain False)" by (simp add: ex_chain_sel)
  have c: "(1000000 :: int) \<noteq> INT_MAX" by (simp add: INT_MAX_def)
  have d: "GetChainID (ex_chain False) (ex_header 3 None) \<noteq> GetOurChainID (ex_chain False)"
    by (simp add: ex_GetChainID ex_chain_sel)
  from a b c d C5_chain_id_enforced [OF a b c d] show ?thesis by (intro conjI)
qed

text \<open>
  C5 as stated fails at the height \<open>INT_MAX\<close>: off the test network, above the activation
  height, a header with chain ID 3 against our 2 passes.
\<close>

theorem C5_counterexample:
  "INT_MAX \<ge> GetAuxPowStartBlock (ex_chain False) \<and> \<not> TestNet (ex_chain False) \<and>
   GetChainID (ex_chain False) (ex_header 3 None) \<noteq> GetOurChainID (ex_chain False) \<and>
   CBlockHeader_CheckProofOfWork (ex_chain False) (ex_header 3 None) INT_MAX = (True, [])"
  by (simp add: CBlockHeader_CheckProofOfWork_def ex_chain_sel ex_GetChainID ex_GetHash ex_nBits
        ex_pow_11 INT_MAX_def)

text \<open>
  C6, amended. At or above the activation height a header with an auxiliary record
  passes exactly when the chain-ID gate lets it through, the record's
  \<open>Check(GetHash(), GetChainID())\<close> succeeds, where the chain ID handed over is the one
  the header declares, and the global check passes on the record's parent block hash
  under the header's \<open>nBits\<close>. Where the gate applies (off the test network, height not
  \<open>INT_MAX\<close>) the header's chain ID is our own, so the record was checked against ours.
\<close>

theorem C6_auxpow_checks:
  assumes "height \<ge> GetAuxPowStartBlock p" and "auxpow h = Some a"
  shows "(fst (CBlockHeader_CheckProofOfWork p h height) \<longleftrightarrow>
            (TestNet p \<or> height = INT_MAX \<or> GetChainID p h = GetOurChainID p) \<and>
            auxpow_Check a (GetHash p h) (GetChainID p h) \<and>
            fst (CheckProofOfWork p (auxpow_GetParentBlockHash a) (nBits h))) \<and>
         (fst (CBlockHeader_CheckProofOfWork p h height) \<and> \<not> TestNet p \<and> height \<noteq> INT_MAX \<longrightarrow>
            auxpow_Check a (GetHash p h) (GetOurChainID p))"
  using assms
  by (auto simp: CBlockHeader_CheckProofOfWork_def error_def split: prod.splits)

text \<open>C6, amended, at height 1000000 on the main network, header and record of chain 2.\<close>

theorem C6_auxpow_checks_witness:
  "1000000 \<ge> GetAuxPowStartBlock (ex_chain False) \<and>
   auxpow (ex_header 2 (Some (ex_auxpow 2))) = Some (ex_auxpow 2) \<and>
   fst (CBlockHeader_CheckProofOfWork (ex_chain False) (ex_header 2 (Some (ex_auxpow 2))) 1000000) \<and>
   auxpow_Check (ex_auxpow 2) (GetHash (ex_chain False) (ex_header 2 (Some (ex_auxpow 2))))
       (GetOurChainID (ex_chain False))"
proof -
  have a: "1000000 \<ge> GetAuxPowStartBlock (ex_chain False)" by (simp add: ex_chain_sel)
  have b: "auxpow (ex_header 2 (Some (ex_auxpow 2))) = Some (ex_auxpow 2)" by (simp add: ex_nBits)
  have c: "(TestNet (ex_chain False) \<or> (1000000 :: int) = INT_MAX \<or>
            GetChainID (ex_chain False) (ex_header 2 (Some (ex_auxpow 2))) = GetOurChainID (ex_chain False)) \<and>
           auxpow_Check (ex_auxpow 2) (GetHash (ex_chain False) (ex_header 2 (Some (ex_auxpow 2))))
             (GetChainID (ex_chain False) (ex_header 2 (Some (ex_auxpow 2)))) \<and>
           fst (CheckProofOfWork (ex_chain False) (auxpow_GetParentBlockHash (ex_auxpow 2))
                  (nBits (ex_header 2 (Some (ex_auxpow 2)))))"
    by (simp add: ex_chain_sel ex_GetChainID ex_nBits ex_auxpow_def ex_pow_5)
  have d: "\<not> TestNet (ex_chain False) \<and> (1000000 :: int) \<noteq> INT_MAX"
    by (simp add: ex_chain_sel INT_MAX_def)
  note t = C6_auxpow_checks [OF a b]
  from t c have e: "fst (CBlockHeader_CheckProofOfWork (ex_chain False) (ex_header 2 (Some (ex_auxpow 2))) 1000000)"
    by blast
  from t e d have "auxpow_Check (ex_auxpow 2) (GetHash (ex_chain False) (ex_header 2 (Some (ex_auxpow 2))))
       (GetOurChainID (ex_chain False))" by blast
  with a b e show ?thesis by (intro conjI)
qed

text \<open>
  C6 as stated fails on the test network: a header of chain 3 with a record that
  accepts chain 3 only passes, although the record's \<open>Check\<close> against our chain ID 2 fails.
\<close>

theorem C6_counterexample:
  "5 \<ge> GetAuxPowStartBlock (ex_chain True) \<and>
   auxpow (ex_header 3 (Some (ex_auxpow 3))) = Some (ex_auxpow 3) \<and>
   fst (CBlockHeader_CheckProofOfWork (ex_chain True) (ex_header 3 (Some (ex_auxpow 3))) 5) \<and>
   \<not> auxpow_Check (ex_auxpow 3) (GetHash (ex_chain True) (ex_header 3 (Some (ex_auxpow 3))))
       (GetOurChainID (ex_chain True))"
  by (simp add: CBlockHeader_CheckProofOfWork_def ex_chain_sel ex_GetChainID ex_GetHash ex_nBits
        ex_pow_5 ex_auxpow_def)

text \<open>
  C7. Below the activation height a header with an auxiliary record fails at once: the
  only log line is "AUX POW is not allowed at this block", so the global check was
  not run. Without a record the result is that of the global check on the header's own
  hash.
\<close>

theorem C7_below_activation:
  assumes "height < GetAuxPowStartBlock p"
  shows "(auxpow h \<noteq> None \<longrightarrow>
            CBlockHeader_CheckProofOfWork p h height =
              (False, [''CheckProofOfWork() : AUX POW is not allowed at this block''])) \<and>
         (auxpow h = None \<longrightarrow>
            fst (CBlockHeader_CheckProofOfWork p h height) =
              fst (CheckProofOfWork p (GetHash p h) (nBits h)))"
  using assms
  by (auto simp: CBlockHeader_CheckProofOfWork_def error_def split: prod.splits)

text \<open>C7 at height 999999 on the main network, with and without a record.\<close>

theorem C7_below_activation_witness:
  "999999 < GetAuxPowStartBlock (ex_chain False) \<and>
   CBlockHeader_CheckProofOfWork (ex_chain False) (ex_header 2 (Some (ex_auxpow 3))) 999999 =
     (False, [''CheckProofOfWork() : AUX POW is not allowed at this block'']) \<and>
   fst (CBlockHeader_CheckProofOfWork (ex_chain False) (ex_header 2 None) 999999) =
     fst (CheckProofOfWork (ex_chain False) (GetHash (ex_chain False) (ex_header 2 None))
            (nBits (ex_header 2 None)))"
proof -
  have a: "999999 < GetAuxPowStartBlock (ex_chain False)" by (simp add: ex_chain_sel)
  have b: "auxpow (ex_header 2 (Some (ex_auxpow 3))) \<noteq> None" by (simp add: ex_nBits)
  have c: "auxpow (ex_header 2 None) = None" by (simp add: ex_nBits)
  from C7_below_activation [OF a, of "ex_header 2 (Some (ex_auxpow 3))"] b
  have d: "CBlockHeader_CheckProofOfWork (ex_chain False) (ex_header 2 (Some (ex_auxpow 3))) 999999 =
     (False, [''CheckProofOfWork() : AUX POW is not allowed at this block''])" by blast
  from C7_below_activation [OF a, of "ex_header 2 None"] c
  have e: "fst (CBlockHeader_CheckProofOfWork (ex_chain False) (ex_header 2 None) 999999) =
     fst (CheckProofOfWork (ex_chain False) (GetHash (ex_chain False) (ex_header 2 None))
            (nBits (ex_header 2 None)))" by blast
  from a d e show ?thesis by (intro conjI)
qed

lemma ex_aux_valid_at_INT_MAX:
  "CBlockHeader_CheckProofOfWork (ex_chain False) (ex_header 3 (Some (ex_auxpow 3))) INT_MAX = (True, [])"
  by (simp add: CBlockHeader_CheckProofOfWork_def ex_chain_sel ex_GetChainID ex_GetHash ex_nBits
        ex_pow_5 ex_auxpow_def INT_MAX_def)

text \<open>
  C10. Off the test network, at the height \<open>INT_MAX\<close> the result is that of the
  proof-of-work checks alone: the chain IDs are not compared, so a header with a chain
  ID other than ours passes when its proof-of-work checks do.
\<close>

theorem C10_sentinel_height:
  assumes "\<not> TestNet p"
  shows "fst (CBlockHeader_CheckProofOfWork p h INT_MAX) =
           (case auxpow h of
              Some a \<Rightarrow> auxpow_Check a (GetHash p h) (GetChainID p h) \<and>
                        fst (CheckProofOfWork p (auxpow_GetParentBlockHash a) (nBits h))
            | None \<Rightarrow> fst (CheckProofOfWork p (GetHash p h) (nBits h)))"
  using assms
  by (auto simp: CBlockHeader_CheckProofOfWork_def error_def GetAuxPowStartBlock_def INT_MAX_def
        split: prod.splits option.splits)

text \<open>
  C10 at a header of chain 3 (ours is 2) with a record that accepts chain 3: it passes
  at \<open>INT_MAX\<close>.
\<close>

theorem C10_sentinel_height_witness:
  "\<not> TestNet (ex_chain False) \<and>
   GetChainID (ex_chain False) (ex_header 3 (Some (ex_auxpow 3))) \<noteq> GetOurChainID (ex_chain False) \<and>
   fst (CBlockHeader_CheckProofOfWork (ex_chain False) (ex_header 3 (Some (ex_auxpow 3))) INT_MAX)"
proof -
  have a: "\<not> TestNet (ex_chain False)" by (simp add: ex_chain_sel)
  have b: "GetChainID (ex_chain False) (ex_header 3 (Some (ex_auxpow 3))) \<noteq> GetOurChainID (ex_chain False)"
    by (simp add: ex_GetChainID ex_chain_sel)
  have c: "(case auxpow (ex_header 3 (Some (ex_auxpow 3))) of
              Some a \<Rightarrow> auxpow_Check a (GetHash (ex_chain False) (ex_header 3 (Some (ex_auxpow 3))))
                          (GetChainID (ex_chain False) (ex_header 3 (Some (ex_auxpow 3)))) \<and>
                        fst (CheckProofOfWork (ex_chain False) (auxpow_GetParentBlockHash a)
                               (nBits (ex_header 3 (Some (ex_auxpow 3)))))
            | None \<Rightarrow> fst (CheckProofOfWork (ex_chain False)
                             (GetHash (ex_chain False) (ex_header 3 (Some (ex_auxpow 3))))
                             (nBits (ex_header 3 (Some (ex_auxpow 3))))))"
    by (simp add: ex_nBits ex_auxpow_def ex_GetChainID ex_pow_5)
  from C10_sentinel_height [OF a, of "ex_header 3 (Some (ex_auxpow 3))"] c
  have "fst (CBlockHeader_CheckProofOfWork (ex_chain False) (ex_header 3 (Some (ex_auxpow 3))) INT_MAX)"
    by (rule iffD2)
  with a b show ?thesis by (intro conjI)
qed

section \<open>Lemmas on the Merkle tree\<close>

lemma length_merkle_pairs: "length (merkle_pairs H xs) = (length xs + 1) div 2"
  by (induction H xs rule: merkle_pairs.induct) simp_all

lemma merkle_pairs_nth:
  "k < length (merkle_pairs H xs) \<Longrightarrow>
     merkle_pairs H xs ! k = H (xs ! (2 * k)) (xs ! min (2 * k + 1) (length xs - 1))"
proof (induction H xs arbitrary: k rule: merkle_pairs.induct)
  case (1 H)
  then show ?case by simp
next
  case (2 H x)
  then show ?case by simp
next
  case (3 H x y xs)
  show ?case
  proof (cases k)
    case 0
    then show ?thesis by simp
  next
    case (Suc k')
    with "3.prems" have k': "k' < length (merkle_pairs H xs)" by simp
    then have "xs \<noteq> []" by auto
    then have m: "min (2 * k + 1) (length (x # y # xs) - 1) = Suc (Suc (min (2 * k' + 1) (length xs - 1)))"
      using Suc by (cases xs) (simp_all add: min_def)
    show ?thesis
      unfolding m using "3.IH" [OF k'] Suc by simp
  qed
qed

lemma merkle_pairs_drop:
  "i < length xs \<Longrightarrow>
     merkle_pairs H (drop i xs) =
       H (xs ! i) (xs ! min (i + 1) (length xs - 1)) # merkle_pairs H (drop (i + 2) xs)"
proof (cases "i + 1 < length xs")
  case True
  assume "i < length xs"
  then have "drop i xs = xs ! i # drop (Suc i) xs" by (simp add: Cons_nth_drop_Suc)
  also have "drop (Suc i) xs = xs ! (Suc i) # drop (Suc (Suc i)) xs"
    using True by (simp add: Cons_nth_drop_Suc)
  finally have d: "drop i xs = xs ! i # xs ! Suc i # drop (Suc (Suc i)) xs" .
  from True have "min (i + 1) (length xs - 1) = Suc i" by linarith
  then show ?thesis unfolding d by simp
next
  case False
  assume i: "i < length xs"
  with False have e: "i = length xs - 1" by simp
  from i have "drop i xs = xs ! i # drop (Suc i) xs" by (simp add: Cons_nth_drop_Suc)
  also have "drop (Suc i) xs = []" using False by simp
  finally show ?thesis using False e by simp
qed

text \<open>The inner loop appends the pairs of the level that starts at \<open>j\<close>.\<close>

lemma BuildMerkleTree_inner_spec:
  assumes "i \<le> length lvl + 1"
  shows "BuildMerkleTree_inner H (pre @ lvl @ acc) (int (length pre)) (int (length lvl)) (int i) =
           pre @ lvl @ acc @ merkle_pairs H (drop i lvl)"
  using assms
proof (induction "length lvl + 1 - i" arbitrary: i acc rule: less_induct)
  case less
  show ?case
  proof (cases "i < length lvl")
    case True
    let ?t = "pre @ lvl @ acc"
    have r1: "?t ! nat (int (length pre) + int i) = lvl ! i"
      using True by (simp add: nat_add_distrib nth_append)
    have i2: "min (int i + 1) (int (length lvl) - 1) = int (min (i + 1) (length lvl - 1))"
      using True by linarith
    have lt: "min (i + 1) (length lvl - 1) < length lvl" using True by simp
    have r2: "?t ! nat (int (length pre) + int (min (i + 1) (length lvl - 1))) =
                lvl ! min (i + 1) (length lvl - 1)"
      using lt by (simp add: nat_add_distrib nth_append del: min_less_iff_conj)
    have cond: "int i < int (length lvl)" using True by simp
    have "BuildMerkleTree_inner H ?t (int (length pre)) (int (length lvl)) (int i) =
        BuildMerkleTree_inner H (?t @ [H (lvl ! i) (lvl ! min (i + 1) (length lvl - 1))])
          (int (length pre)) (int (length lvl)) (int i + 2)"
      by (subst BuildMerkleTree_inner.simps) (simp only: cond if_True Let_def i2 r1 r2)
    then have step: "BuildMerkleTree_inner H ?t (int (length pre)) (int (length lvl)) (int i) =
        BuildMerkleTree_inner H (pre @ lvl @ (acc @ [H (lvl ! i) (lvl ! min (i + 1) (length lvl - 1))]))
          (int (length pre)) (int (length lvl)) (int (i + 2))"
      by (simp add: add.commute)
    have "length lvl + 1 - (i + 2) < length lvl + 1 - i" using True by simp
    moreover have "i + 2 \<le> length lvl + 1" using True by simp
    ultimately have "BuildMerkleTree_inner H
          (pre @ lvl @ (acc @ [H (lvl ! i) (lvl ! min (i + 1) (length lvl - 1))]))
          (int (length pre)) (int (length lvl)) (int (i + 2)) =
        pre @ lvl @ (acc @ [H (lvl ! i) (lvl ! min (i + 1) (length lvl - 1))]) @
          merkle_pairs H (drop (i + 2) lvl)"
      by (rule less.hyps)
    then show ?thesis
      unfolding step merkle_pairs_drop [OF True] by simp
  next
    case False
    then have "BuildMerkleTree_inner H (pre @ lvl @ acc) (int (length pre)) (int (length lvl)) (int i) =
                 pre @ lvl @ acc"
      by (subst BuildMerkleTree_inner.simps) simp
    with False show ?thesis by simp
  qed
qed

lemma merkle_levels_stop: "length xs \<le> 1 \<Longrightarrow> merkle_levels H xs = [xs]"
  by (subst merkle_levels.simps) simp

lemma merkle_levels_step:
  "1 < length xs \<Longrightarrow> merkle_levels H xs = xs # merkle_levels H (merkle_pairs H xs)"
  by (subst merkle_levels.simps) simp

lemma BuildMerkleTree_outer_spec:
  "BuildMerkleTree_outer H (pre @ lvl) (int (length pre)) (int (length lvl)) =
     pre @ concat (merkle_levels H lvl)"
proof (induction H lvl arbitrary: pre rule: merkle_levels.induct)
  case (1 H xs)
  show ?case
  proof (cases "length xs \<le> 1")
    case True
    then have "BuildMerkleTree_outer H (pre @ xs) (int (length pre)) (int (length xs)) = pre @ xs"
      by (subst BuildMerkleTree_outer.simps) simp
    then show ?thesis using True by (simp add: merkle_levels_stop)
  next
    case False
    then have gt: "1 < length xs" by simp
    have inner: "BuildMerkleTree_inner H (pre @ xs) (int (length pre)) (int (length xs)) 0 =
                   pre @ xs @ merkle_pairs H xs"
      using BuildMerkleTree_inner_spec [of 0 xs H pre "[]"] by simp
    have half: "(int (length xs) + 1) div 2 = int (length (merkle_pairs H xs))"
      by (simp add: length_merkle_pairs zdiv_int)
    have "BuildMerkleTree_outer H (pre @ xs) (int (length pre)) (int (length xs)) =
            BuildMerkleTree_outer H ((pre @ xs) @ merkle_pairs H xs) (int (length (pre @ xs)))
              (int (length (merkle_pairs H xs)))"
      using gt by (subst BuildMerkleTree_outer.simps) (simp add: inner half)
    also have "\<dots> = (pre @ xs) @ concat (merkle_levels H (merkle_pairs H xs))"
      by (rule "1.IH" [OF False])
    finally show ?thesis using gt by (simp add: merkle_levels_step)
  qed
qed

lemma hd_merkle_levels: "hd (merkle_levels H xs) = xs"
  by (cases "length xs \<le> 1") (simp_all add: merkle_levels_stop merkle_levels_step)

lemma merkle_levels_not_Nil: "merkle_levels H xs \<noteq> []"
  by (cases "length xs \<le> 1") (simp_all add: merkle_levels_stop merkle_levels_step)

lemma merkle_levels_Suc:
  "Suc m < length (merkle_levels H xs) \<Longrightarrow>
     merkle_levels H xs ! Suc m = merkle_pairs H (merkle_levels H xs ! m)"
proof (induction H xs arbitrary: m rule: merkle_levels.induct)
  case (1 H xs)
  show ?case
  proof (cases "length xs \<le> 1")
    case True
    with "1.prems" show ?thesis by (simp add: merkle_levels_stop)
  next
    case False
    then have st: "merkle_levels H xs = xs # merkle_levels H (merkle_pairs H xs)"
      by (simp add: merkle_levels_step)
    show ?thesis
    proof (cases m)
      case 0
      have "merkle_levels H (merkle_pairs H xs) ! 0 = hd (merkle_levels H (merkle_pairs H xs))"
        using merkle_levels_not_Nil [of H "merkle_pairs H xs"] by (simp add: hd_conv_nth)
      then show ?thesis unfolding st 0 by (simp add: hd_merkle_levels)
    next
      case (Suc m')
      with "1.prems" have "Suc m' < length (merkle_levels H (merkle_pairs H xs))"
        unfolding st by simp
      from "1.IH" [OF False this] show ?thesis unfolding st Suc by simp
    qed
  qed
qed

lemma merkle_pairs_not_Nil: "xs \<noteq> [] \<Longrightarrow> merkle_pairs H xs \<noteq> []"
  by (cases "(H, xs)" rule: merkle_pairs.cases) simp_all

lemma merkle_levels_last:
  "xs \<noteq> [] \<Longrightarrow> last (merkle_levels H xs) = [last (concat (merkle_levels H xs))]"
proof (induction H xs rule: merkle_levels.induct)
  case (1 H xs)
  show ?case
  proof (cases "length xs \<le> 1")
    case True
    with "1.prems" obtain x where "xs = [x]" by (cases xs) auto
    then show ?thesis by (simp add: merkle_levels_stop)
  next
    case False
    then have st: "merkle_levels H xs = xs # merkle_levels H (merkle_pairs H xs)"
      by (simp add: merkle_levels_step)
    have ne: "merkle_pairs H xs \<noteq> []" using "1.prems" by (rule merkle_pairs_not_Nil)
    from "1.IH" [OF False ne]
    have ih: "last (merkle_levels H (merkle_pairs H xs)) =
                [last (concat (merkle_levels H (merkle_pairs H xs)))]" .
    have "concat (merkle_levels H (merkle_pairs H xs)) \<noteq> []"
    proof
      assume "concat (merkle_levels H (merkle_pairs H xs)) = []"
      then have "\<forall>l \<in> set (merkle_levels H (merkle_pairs H xs)). l = []" by simp
      moreover have "last (merkle_levels H (merkle_pairs H xs)) \<in> set (merkle_levels H (merkle_pairs H xs))"
        using merkle_levels_not_Nil by simp
      ultimately have "last (merkle_levels H (merkle_pairs H xs)) = []" by blast
      with ih show False by simp
    qed
    then show ?thesis unfolding st using ih merkle_levels_not_Nil [of H "merkle_pairs H xs"] by simp
  qed
qed

lemma concat_merkle_levels_not_Nil: "xs \<noteq> [] \<Longrightarrow> concat (merkle_levels H xs) \<noteq> []"
  by (cases "length xs \<le> 1") (simp_all add: merkle_levels_stop merkle_levels_step)

lemma BuildMerkleTree_tree:
  "vMerkleTree (snd (BuildMerkleTree q blk)) =
     concat (merkle_levels (Hash q) (map (SerializeHash q) (vtx blk)))"
  using BuildMerkleTree_outer_spec [of "Hash q" "[]" "map (SerializeHash q) (vtx blk)"]
  by (simp add: BuildMerkleTree_def Let_def)

lemma BuildMerkleTree_vtx: "vtx (snd (BuildMerkleTree q blk)) = vtx blk"
  by (simp add: BuildMerkleTree_def Let_def)

lemma BuildMerkleTree_root:
  "fst (BuildMerkleTree q blk) =
     (if vtx blk = [] then 0
      else last (concat (merkle_levels (Hash q) (map (SerializeHash q) (vtx blk)))))"
proof -
  have t: "BuildMerkleTree_outer (Hash q) (map (SerializeHash q) (vtx blk)) 0 (int (length (vtx blk))) =
      concat (merkle_levels (Hash q) (map (SerializeHash q) (vtx blk)))"
    using BuildMerkleTree_outer_spec [of "Hash q" "[]" "map (SerializeHash q) (vtx blk)"] by simp
  show ?thesis
  proof (cases "vtx blk = []")
    case True
    with t have "BuildMerkleTree_outer (Hash q) [] 0 0 = []" by (simp add: merkle_levels_stop)
    with True show ?thesis by (simp add: BuildMerkleTree_def Let_def)
  next
    case False
    then have "concat (merkle_levels (Hash q) (map (SerializeHash q) (vtx blk))) \<noteq> []"
      by (intro concat_merkle_levels_not_Nil) simp
    with False show ?thesis by (auto simp: BuildMerkleTree_def Let_def t)
  qed
qed

text \<open>
  C3. For a block of fewer than \<open>2^30\<close> transactions \<open>BuildMerkleTree\<close> leaves in
  \<open>vMerkleTree\<close> the levels of the tree one after the other. Level 0 is the transaction
  hashes; each next level has half as many entries, rounded up, so no entry is dropped;
  entry \<open>k\<close> of it is the hash of entries \<open>2k\<close> and \<open>2k+1\<close> of the level below, or of
  entry \<open>2k\<close> with itself when \<open>2k\<close> is the last entry of that level. The root returned
  is the one entry of the last level, and 0 when there are no transactions.
\<close>

theorem C3_BuildMerkleTree:
  assumes "length (vtx blk) < 2 ^ 30"
  shows "vMerkleTree (snd (BuildMerkleTree q blk)) =
           concat (merkle_levels (Hash q) (map (SerializeHash q) (vtx blk))) \<and>
         hd (merkle_levels (Hash q) (map (SerializeHash q) (vtx blk))) = map (SerializeHash q) (vtx blk) \<and>
         (\<forall>m. Suc m < length (merkle_levels (Hash q) (map (SerializeHash q) (vtx blk))) \<longrightarrow>
            length (merkle_levels (Hash q) (map (SerializeHash q) (vtx blk)) ! Suc m) =
              (length (merkle_levels (Hash q) (map (SerializeHash q) (vtx blk)) ! m) + 1) div 2 \<and>
            (\<forall>k < length (merkle_levels (Hash q) (map (SerializeHash q) (vtx blk)) ! Suc m).
               merkle_levels (Hash q) (map (SerializeHash q) (vtx blk)) ! Suc m ! k =
                 Hash q (merkle_levels (Hash q) (map (SerializeHash q) (vtx blk)) ! m ! (2 * k))
                        (merkle_levels (Hash q) (map (SerializeHash q) (vtx blk)) ! m !
                           min (2 * k + 1)
                             (length (merkle_levels (Hash q) (map (SerializeHash q) (vtx blk)) ! m) - 1)))) \<and>
         (vtx blk = [] \<longrightarrow> fst (BuildMerkleTree q blk) = 0) \<and>
         (vtx blk \<noteq> [] \<longrightarrow>
            last (merkle_levels (Hash q) (map (SerializeHash q) (vtx blk))) = [fst (BuildMerkleTree q blk)])"
proof -
  let ?L = "merkle_levels (Hash q) (map (SerializeHash q) (vtx blk))"
  have lv: "length (?L ! Suc m) = (length (?L ! m) + 1) div 2 \<and>
            (\<forall>k < length (?L ! Suc m).
               ?L ! Suc m ! k = Hash q (?L ! m ! (2 * k)) (?L ! m ! min (2 * k + 1) (length (?L ! m) - 1)))"
    if "Suc m < length ?L" for m
    unfolding merkle_levels_Suc [OF that]
    by (simp add: length_merkle_pairs merkle_pairs_nth)
  have r: "vtx blk \<noteq> [] \<longrightarrow> last ?L = [fst (BuildMerkleTree q blk)]"
    by (simp add: BuildMerkleTree_root merkle_levels_last)
  show ?thesis
    using lv r by (simp add: BuildMerkleTree_tree hd_merkle_levels BuildMerkleTree_root)
qed

lemma int_xor_1: "(int i) XOR 1 = (if even i then int i + 1 else int i - 1)"
  by (simp add: xor_one_eq)

lemma int_and_1: "((int i) AND 1 \<noteq> 0) = odd i"
proof -
  have "(int i AND 1 \<noteq> 0) = (int i mod 2 \<noteq> 0)" by (simp add: and_one_eq)
  also have "\<dots> = odd (int i)" by (simp add: even_iff_mod_2_eq_zero)
  also have "\<dots> = odd i" by simp
  finally show ?thesis .
qed

lemma int_drop_bit_1: "drop_bit 1 (int i) = int (i div 2)"
  by (simp add: drop_bit_eq_div zdiv_int)

lemma GetMerkleBranch_loop_spec:
  "lvl \<noteq> [] \<Longrightarrow> i < length lvl \<Longrightarrow>
     \<exists>br. GetMerkleBranch_loop (pre @ concat (merkle_levels H lvl)) acc
              (int (length pre)) (int (length lvl)) (int i) = Some (acc @ br) \<and>
           CheckMerkleBranch_loop H (lvl ! i) br (int i) = last (concat (merkle_levels H lvl))"
proof (induction H lvl arbitrary: pre acc i rule: merkle_levels.induct)
  case (1 H xs)
  show ?case
  proof (cases "length xs \<le> 1")
    case True
    with "1.prems" obtain x where x: "xs = [x]" by (cases xs) auto
    with "1.prems" have i: "i = 0" by simp
    have "GetMerkleBranch_loop (pre @ concat (merkle_levels H xs)) acc
              (int (length pre)) (int (length xs)) (int i) = Some acc"
      using True by (subst GetMerkleBranch_loop.simps) simp
    then show ?thesis using x i by (simp add: merkle_levels_stop)
  next
    case False
    let ?n = "length xs"
    let ?ps = "merkle_pairs H xs"
    from False have gt: "1 < ?n" by simp
    have st: "merkle_levels H xs = xs # merkle_levels H ?ps" using gt by (rule merkle_levels_step)
    have ne: "?ps \<noteq> []" using "1.prems"(1) by (rule merkle_pairs_not_Nil)
    define idx where "idx = (if even i then min (i + 1) (?n - 1) else i - 1)"
    have idx_lt: "idx < ?n" unfolding idx_def using "1.prems"(2) gt by (auto simp: min_def)
    have idx_int: "min (int i XOR 1) (int ?n - 1) = int idx"
    proof (cases "even i")
      case True
      then show ?thesis using gt unfolding idx_def int_xor_1 by simp
    next
      case False
      then have "0 < i" by (cases i) simp_all
      with False "1.prems"(2) show ?thesis unfolding idx_def int_xor_1 by simp
    qed
    let ?t = "pre @ concat (merkle_levels H xs)"
    have t: "?t = (pre @ xs) @ concat (merkle_levels H ?ps)" unfolding st by simp
    have rd: "?t ! nat (int (length pre) + int idx) = xs ! idx"
      using idx_lt unfolding st by (simp add: nat_add_distrib nth_append)
    have inr: "0 \<le> int (length pre) + int idx \<and> nat (int (length pre) + int idx) < length ?t"
      using idx_lt unfolding st by (simp add: nat_add_distrib)
    have half: "(int ?n + 1) div 2 = int (length ?ps)"
      by (simp add: length_merkle_pairs zdiv_int)
    have cond: "1 < int ?n" using gt by simp
    have "GetMerkleBranch_loop ?t acc (int (length pre)) (int ?n) (int i) =
            GetMerkleBranch_loop ?t (acc @ [?t ! nat (int (length pre) + int idx)])
              (int (length pre) + int ?n) ((int ?n + 1) div 2) (drop_bit 1 (int i))"
      by (subst GetMerkleBranch_loop.simps) (simp only: cond if_True Let_def idx_int inr simp_thms)
    then have step: "GetMerkleBranch_loop ?t acc (int (length pre)) (int ?n) (int i) =
            GetMerkleBranch_loop ((pre @ xs) @ concat (merkle_levels H ?ps)) (acc @ [xs ! idx])
              (int (length (pre @ xs))) (int (length ?ps)) (int (i div 2))"
      unfolding rd half int_drop_bit_1 t [symmetric] by simp
    have i2: "i div 2 < length ?ps" using "1.prems"(2) by (simp add: length_merkle_pairs)
    from "1.IH" [OF False ne i2, of "pre @ xs" "acc @ [xs ! idx]"]
    obtain br' where br':
      "GetMerkleBranch_loop ((pre @ xs) @ concat (merkle_levels H ?ps)) (acc @ [xs ! idx])
              (int (length (pre @ xs))) (int (length ?ps)) (int (i div 2)) =
         Some ((acc @ [xs ! idx]) @ br')"
      "CheckMerkleBranch_loop H (?ps ! (i div 2)) br' (int (i div 2)) =
         last (concat (merkle_levels H ?ps))"
      by blast
    have pair: "(if int i AND 1 \<noteq> 0 then H (xs ! idx) (xs ! i) else H (xs ! i) (xs ! idx)) =
                  ?ps ! (i div 2)"
    proof (cases "even i")
      case True
      then have "2 * (i div 2) = i" by simp
      then show ?thesis
        using True merkle_pairs_nth [OF i2] by (simp add: int_and_1 idx_def)
    next
      case False
      then have a: "2 * (i div 2) + 1 = i" by presburger
      then have b: "2 * (i div 2) = i - 1" by simp
      have "min i (?n - 1) = i" using "1.prems"(2) by simp
      then show ?thesis
        using False merkle_pairs_nth [OF i2] unfolding a b by (simp add: int_and_1 idx_def)
    qed
    have chk: "CheckMerkleBranch_loop H (xs ! i) (xs ! idx # br') (int i) =
                 last (concat (merkle_levels H ?ps))"
      using br'(2) by (simp only: CheckMerkleBranch_loop.simps pair int_drop_bit_1)
    have lst: "last (concat (merkle_levels H xs)) = last (concat (merkle_levels H ?ps))"
      unfolding st using concat_merkle_levels_not_Nil [OF ne, of H] by simp
    show ?thesis
      unfolding step br'(1) lst using chk by (intro exI [of _ "xs ! idx # br'"]) simp
  qed
qed

text \<open>
  C2. For every block of at least one and fewer than \<open>2^30\<close> transactions whose cache is
  empty or holds the tree of its transactions, and every index \<open>i\<close> into the
  transactions: \<open>GetMerkleBranch(i)\<close> returns a branch, and \<open>CheckMerkleBranch\<close> of the hash
  of transaction \<open>i\<close>, that branch and \<open>i\<close> is the root \<open>BuildMerkleTree\<close> returns.
\<close>

theorem C2_merkle_branch_roundtrip:
  assumes "vtx blk \<noteq> []" and "length (vtx blk) < 2 ^ 30"
    and "0 \<le> i" and "i < int (length (vtx blk))"
    and "vMerkleTree blk = [] \<or> vMerkleTree blk = vMerkleTree (snd (BuildMerkleTree q blk))"
  shows "\<exists>branch. fst (GetMerkleBranch q blk i) = Some branch \<and>
           CheckMerkleBranch (Hash q) (SerializeHash q (vtx blk ! nat i)) branch i =
             fst (BuildMerkleTree q blk)"
proof -
  let ?hs = "map (SerializeHash q) (vtx blk)"
  let ?T = "concat (merkle_levels (Hash q) ?hs)"
  define k where "k = nat i"
  have i: "i = int k" and k: "k < length ?hs" using assms(3,4) by (simp_all add: k_def)
  have ne: "?hs \<noteq> []" using assms(1) by simp
  have g: "fst (GetMerkleBranch q blk i) =
             GetMerkleBranch_loop ?T [] 0 (int (length ?hs)) (int k)"
    using assms(5)
    by (auto simp: GetMerkleBranch_def Let_def BuildMerkleTree_tree BuildMerkleTree_vtx i)
  from GetMerkleBranch_loop_spec [OF ne k, of "[]" "Hash q" "[]"]
  obtain br where br: "GetMerkleBranch_loop ?T [] 0 (int (length ?hs)) (int k) = Some br"
    "CheckMerkleBranch_loop (Hash q) (?hs ! k) br (int k) = last ?T"
    by auto
  have "CheckMerkleBranch (Hash q) (SerializeHash q (vtx blk ! nat i)) br i = last ?T"
    using br(2) k by (simp add: CheckMerkleBranch_def i)
  then show ?thesis
    using g br(1) assms(1) by (simp add: BuildMerkleTree_root)
qed

lemma GetMerkleBranch_loop_stop:
  "\<not> 1 < nSize \<Longrightarrow> GetMerkleBranch_loop t acc j nSize i = Some acc"
  by (subst GetMerkleBranch_loop.simps) simp

lemma GetMerkleBranch_loop_step:
  "1 < nSize \<Longrightarrow> 0 \<le> j + min (i XOR 1) (nSize - 1) \<Longrightarrow>
   nat (j + min (i XOR 1) (nSize - 1)) < length t \<Longrightarrow>
   GetMerkleBranch_loop t acc j nSize i =
     GetMerkleBranch_loop t (acc @ [t ! nat (j + min (i XOR 1) (nSize - 1))])
       (j + nSize) ((nSize + 1) div 2) (drop_bit 1 i)"
  by (subst GetMerkleBranch_loop.simps) (simp add: Let_def)

lemma ex_levels5:
  "merkle_levels (Hash ex_params) [0, 10, 20, 30, 40] =
     [[0, 10, 20, 30, 40], [51, 211, 321], [1209, 2569], [16473]]"
  by (simp add: merkle_levels_step merkle_levels_stop ex_params_def)

lemma ex_tree5:
  "vMerkleTree (snd (BuildMerkleTree ex_params (ex_block r b [0, 10, 20, 30, 40]))) =
     [0, 10, 20, 30, 40, 51, 211, 321, 1209, 2569, 16473]"
proof -
  have "map (SerializeHash ex_params) (vtx (ex_block r b [0, 10, 20, 30, 40])) = [0, 10, 20, 30, 40]"
    by (simp add: ex_params_def ex_block_def)
  then show ?thesis unfolding BuildMerkleTree_tree by (simp add: ex_levels5)
qed

lemma ex_root5: "fst (BuildMerkleTree ex_params (ex_block r b [0, 10, 20, 30, 40])) = 16473"
proof -
  have "map (SerializeHash ex_params) (vtx (ex_block r b [0, 10, 20, 30, 40])) = [0, 10, 20, 30, 40]"
    "vtx (ex_block r b [0, 10, 20, 30, 40]) \<noteq> []"
    by (simp_all add: ex_params_def ex_block_def)
  then show ?thesis unfolding BuildMerkleTree_root by (simp add: ex_levels5)
qed

lemma ex_branch5:
  "fst (GetMerkleBranch ex_params (ex_block r b [0, 10, 20, 30, 40]) 4) = Some [40, 321, 1209]"
proof -
  have "GetMerkleBranch_loop [0, 10, 20, 30, 40, 51, 211, 321, 1209, 2569, 16473] [] 0 5 4 =
          Some [40, 321, 1209]"
    by (simp add: GetMerkleBranch_loop_step GetMerkleBranch_loop_stop drop_bit_eq_div)
  moreover have "vMerkleTree (ex_block r b [0, 10, 20, 30, 40]) = []"
    "length (vtx (ex_block r b [0, 10, 20, 30, 40])) = 5" by (simp_all add: ex_block_def)
  ultimately show ?thesis
    by (simp add: GetMerkleBranch_def Let_def ex_tree5 BuildMerkleTree_vtx)
qed

text \<open>C2 at a block of five transactions and index 4, the unpaired last one.\<close>

theorem C2_merkle_branch_roundtrip_witness:
  "vtx (ex_block 0 1000 [0, 10, 20, 30, 40]) \<noteq> [] \<and>
   length (vtx (ex_block 0 1000 [0, 10, 20, 30, 40])) < 2 ^ 30 \<and>
   (0 :: int) \<le> 4 \<and> 4 < int (length (vtx (ex_block 0 1000 [0, 10, 20, 30, 40]))) \<and>
   vMerkleTree (ex_block 0 1000 [0, 10, 20, 30, 40]) = [] \<and>
   fst (GetMerkleBranch ex_params (ex_block 0 1000 [0, 10, 20, 30, 40]) 4) = Some [40, 321, 1209] \<and>
   CheckMerkleBranch (Hash ex_params)
     (SerializeHash ex_params (vtx (ex_block 0 1000 [0, 10, 20, 30, 40]) ! nat 4)) [40, 321, 1209] 4 =
     fst (BuildMerkleTree ex_params (ex_block 0 1000 [0, 10, 20, 30, 40])) \<and>
   fst (BuildMerkleTree ex_params (ex_block 0 1000 [0, 10, 20, 30, 40])) = 16473"
proof -
  let ?B = "ex_block 0 1000 [0, 10, 20, 30, 40]"
  have a: "vtx ?B \<noteq> []" and b: "length (vtx ?B) < 2 ^ 30" and c: "(0 :: int) \<le> 4"
    and d: "4 < int (length (vtx ?B))" and e: "vMerkleTree ?B = []"
    by (simp_all add: ex_block_def)
  from e have e': "vMerkleTree ?B = [] \<or> vMerkleTree ?B = vMerkleTree (snd (BuildMerkleTree ex_params ?B))"
    by (rule disjI1)
  from C2_merkle_branch_roundtrip [OF a b c d e']
  obtain branch where br: "fst (GetMerkleBranch ex_params ?B 4) = Some branch"
    "CheckMerkleBranch (Hash ex_params) (SerializeHash ex_params (vtx ?B ! nat 4)) branch 4 =
       fst (BuildMerkleTree ex_params ?B)" by blast
  from br(1) have "branch = [40, 321, 1209]" by (simp add: ex_branch5)
  with br(2) have f: "CheckMerkleBranch (Hash ex_params) (SerializeHash ex_params (vtx ?B ! nat 4))
      [40, 321, 1209] 4 = fst (BuildMerkleTree ex_params ?B)" by simp
  from a b c d e ex_branch5 [of 0 1000] f ex_root5 [of 0 1000] show ?thesis by (intro conjI)
qed

lemma ex_levels3:
  "merkle_levels (Hash ex_params) [0, 10, 20] = [[0, 10, 20], [51, 161], [959]]"
  by (simp add: merkle_levels_step merkle_levels_stop ex_params_def)

text \<open>C3 at a block of three transactions, and at the empty block.\<close>

theorem C3_BuildMerkleTree_witness:
  "length (vtx (ex_block 0 1000 [0, 10, 20])) < 2 ^ 30 \<and>
   vMerkleTree (snd (BuildMerkleTree ex_params (ex_block 0 1000 [0, 10, 20]))) =
     [0, 10, 20, 51, 161, 959] \<and>
   fst (BuildMerkleTree ex_params (ex_block 0 1000 [0, 10, 20])) = 959 \<and>
   length (vtx (ex_block 0 1000 [])) < 2 ^ 30 \<and>
   fst (BuildMerkleTree ex_params (ex_block 0 1000 [])) = 0"
proof -
  let ?B = "ex_block 0 1000 [0, 10, 20]"
  let ?E = "ex_block 0 1000 ([] :: nat list)"
  have a: "length (vtx ?B) < 2 ^ 30" and b: "length (vtx ?E) < 2 ^ 30"
    by (simp_all add: ex_block_def)
  have h: "map (SerializeHash ex_params) (vtx ?B) = [0, 10, 20]"
    by (simp add: ex_params_def ex_block_def)
  have ne: "vtx ?B \<noteq> []" and em: "vtx ?E = []" by (simp_all add: ex_block_def)
  note t = C3_BuildMerkleTree [OF a, of ex_params]
  from t have "vMerkleTree (snd (BuildMerkleTree ex_params ?B)) =
      concat (merkle_levels (Hash ex_params) (map (SerializeHash ex_params) (vtx ?B)))"
    by (rule conjunct1)
  then have c: "vMerkleTree (snd (BuildMerkleTree ex_params ?B)) = [0, 10, 20, 51, 161, 959]"
    unfolding h ex_levels3 by simp
  from t ne have "last (merkle_levels (Hash ex_params) (map (SerializeHash ex_params) (vtx ?B))) =
      [fst (BuildMerkleTree ex_params ?B)]" by blast
  then have d: "fst (BuildMerkleTree ex_params ?B) = 959" unfolding h ex_levels3 by simp
  from C3_BuildMerkleTree [OF b, of ex_params] em
  have e: "fst (BuildMerkleTree ex_params ?E) = 0" by blast
  from a c d b e show ?thesis by (intro conjI)
qed

section \<open>Lemmas on CheckBlock\<close>

lemma merkle_levels_prefix: "\<exists>rest. concat (merkle_levels H xs) = xs @ rest"
  by (cases "length xs \<le> 1") (simp_all add: merkle_levels_stop merkle_levels_step)

lemma map_nth_prefix: "map (\<lambda>i. (xs @ rest) ! i) [0..<length xs] = xs"
proof -
  have "map (\<lambda>i. (xs @ rest) ! i) [0..<length xs] = map (\<lambda>i. xs ! i) [0..<length xs]"
    by (rule map_cong) (simp_all add: nth_append)
  then show ?thesis by (simp add: map_nth)
qed

lemma GetTxHash_BuildMerkleTree:
  "map (GetTxHash (snd (BuildMerkleTree q blk))) [0..<length (vtx (snd (BuildMerkleTree q blk)))] =
     map (SerializeHash q) (vtx blk)"
proof -
  obtain rest where r: "concat (merkle_levels (Hash q) (map (SerializeHash q) (vtx blk))) =
      map (SerializeHash q) (vtx blk) @ rest"
    using merkle_levels_prefix by blast
  have "map (GetTxHash (snd (BuildMerkleTree q blk))) [0..<length (vtx blk)] =
        map (\<lambda>i. (map (SerializeHash q) (vtx blk) @ rest) ! i) [0..<length (map (SerializeHash q) (vtx blk))]"
    by (simp add: GetTxHash_def BuildMerkleTree_tree r)
  also have "\<dots> = map (SerializeHash q) (vtx blk)" by (rule map_nth_prefix)
  finally show ?thesis by (simp add: BuildMerkleTree_vtx)
qed

lemma uniqueTx_distinct:
  "(card (set (map (GetTxHash (snd (BuildMerkleTree q blk)))
                 [0..<length (vtx (snd (BuildMerkleTree q blk)))])) \<noteq>
      length (vtx (snd (BuildMerkleTree q blk)))) =
   (\<not> distinct (map (SerializeHash q) (vtx blk)))"
proof -
  have "(card (set (map (SerializeHash q) (vtx blk))) = length (map (SerializeHash q) (vtx blk))) =
        distinct (map (SerializeHash q) (vtx blk))"
    using card_distinct distinct_card by blast
  then show ?thesis unfolding GetTxHash_BuildMerkleTree by (simp add: BuildMerkleTree_vtx)
qed

text \<open>
  C4, amended. A block in which two transactions have the same hash never passes
  \<open>CheckBlock\<close>. When it passes the checks that come first (size limits, proof of work,
  timestamp, coinbase placement, \<open>CheckTransaction\<close>), the rejection is the one for
  duplicate transactions: 100 is added to the penalty of the state the transaction
  checks left, whatever \<open>hashMerkleRoot\<close> the header declares, the tree's own root
  included.
\<close>

theorem C4_duplicate_rejected:
  assumes "\<not> distinct (map (SerializeHash q) (vtx blk))" and "MAX_BLOCK_SIZE q < 2 ^ 30"
  shows "\<not> fst (CheckBlock p q blk height state) \<and>
         (vtx blk \<noteq> [] \<and> length (vtx blk) \<le> MAX_BLOCK_SIZE q \<and>
          GetSerializeSize q blk \<le> MAX_BLOCK_SIZE q \<and>
          fst (CheckProofOfWork p (GetHash p blk) (nBits blk)) \<and>
          uint (nTime blk) \<le> GetAdjustedTime q + 2 * 60 * 60 \<and>
          IsCoinBase q (vtx blk ! 0) \<and> \<not> list_ex (IsCoinBase q) (tl (vtx blk)) \<and>
          fst (CheckTransactions q (vtx blk) state) \<longrightarrow>
          CheckBlock p q blk height state =
            (False, DoS (snd (CheckTransactions q (vtx blk) state)) 100,
             [''CheckBlock() : duplicate transaction''], snd (BuildMerkleTree q blk)))"
proof (intro conjI impI)
  show "\<not> fst (CheckBlock p q blk height state)"
    using assms(1) uniqueTx_distinct [of q blk]
    by (auto simp: CheckBlock_def Let_def split: prod.splits)
next
  assume pre: "vtx blk \<noteq> [] \<and> length (vtx blk) \<le> MAX_BLOCK_SIZE q \<and>
          GetSerializeSize q blk \<le> MAX_BLOCK_SIZE q \<and>
          fst (CheckProofOfWork p (GetHash p blk) (nBits blk)) \<and>
          uint (nTime blk) \<le> GetAdjustedTime q + 2 * 60 * 60 \<and>
          IsCoinBase q (vtx blk ! 0) \<and> \<not> list_ex (IsCoinBase q) (tl (vtx blk)) \<and>
          fst (CheckTransactions q (vtx blk) state)"
  then have pow: "CheckProofOfWork p (GetHash p blk) (nBits blk) = (True, [])"
    by (simp add: CheckProofOfWork_True)
  obtain s1 where ct: "CheckTransactions q (vtx blk) state = (True, s1)"
    using pre by (cases "CheckTransactions q (vtx blk) state") auto
  have dup: "card (set (map (GetTxHash (snd (BuildMerkleTree q blk)))
                 [0..<length (vtx (snd (BuildMerkleTree q blk)))])) \<noteq>
      length (vtx (snd (BuildMerkleTree q blk)))"
    using assms(1) uniqueTx_distinct [of q blk] by blast
  show "CheckBlock p q blk height state =
            (False, DoS (snd (CheckTransactions q (vtx blk) state)) 100,
             [''CheckBlock() : duplicate transaction''], snd (BuildMerkleTree q blk))"
    using pre dup by (simp add: CheckBlock_def Let_def pow ct)
qed


lemma ex_levels4:
  "merkle_levels (Hash ex_params) [0, 10, 20, 20] = [[0, 10, 20, 20], [51, 161], [959]]"
  by (simp add: merkle_levels_step merkle_levels_stop ex_params_def)

lemma ex_root4: "fst (BuildMerkleTree ex_params (ex_block r b [0, 10, 20, 20])) = 959"
proof -
  have "map (SerializeHash ex_params) (vtx (ex_block r b [0, 10, 20, 20])) = [0, 10, 20, 20]"
    "vtx (ex_block r b [0, 10, 20, 20]) \<noteq> []"
    by (simp_all add: ex_params_def ex_block_def)
  then show ?thesis unfolding BuildMerkleTree_root by (simp add: ex_levels4)
qed

lemma ex_root3: "fst (BuildMerkleTree ex_params (ex_block r b [0, 10, 20])) = 959"
proof -
  have "map (SerializeHash ex_params) (vtx (ex_block r b [0, 10, 20])) = [0, 10, 20]"
    "vtx (ex_block r b [0, 10, 20]) \<noteq> []"
    by (simp_all add: ex_params_def ex_block_def)
  then show ?thesis unfolding BuildMerkleTree_root by (simp add: ex_levels3)
qed

lemma ex_dup4: "\<not> distinct (map (SerializeHash ex_params) (vtx (ex_block r b [0, 10, 20, 20])))"
  by (simp add: ex_params_def ex_block_def)

lemma ex_block_pow: "CheckProofOfWork (ex_chain t) (GetHash (ex_chain t) (ex_block 959 1000 txs))
    (nBits (ex_block 959 1000 txs)) = (True, [])"
  by (simp add: CheckProofOfWork_def GetHash_def ex_chain_def ex_block_def Let_def error_def)

text \<open>
  C4, amended, at the block (A, B, C, C), whose header declares the root of its own
  tree, which is also the root of (A, B, C).
\<close>

theorem C4_duplicate_rejected_witness:
  "\<not> distinct (map (SerializeHash ex_params) (vtx (ex_block 959 1000 [0, 10, 20, 20]))) \<and>
   MAX_BLOCK_SIZE ex_params < 2 ^ 30 \<and>
   hashMerkleRoot (ex_block 959 1000 [0, 10, 20, 20]) =
     fst (BuildMerkleTree ex_params (ex_block 959 1000 [0, 10, 20, 20])) \<and>
   fst (BuildMerkleTree ex_params (ex_block 959 1000 [0, 10, 20, 20])) =
     fst (BuildMerkleTree ex_params (ex_block 959 1000 [0, 10, 20])) \<and>
   CheckBlock (ex_chain False) ex_params (ex_block 959 1000 [0, 10, 20, 20]) 5 ex_state =
     (False, \<lparr>nDoS = 100, invalid = True\<rparr>, [''CheckBlock() : duplicate transaction''],
      snd (BuildMerkleTree ex_params (ex_block 959 1000 [0, 10, 20, 20])))"
proof -
  let ?B = "ex_block 959 1000 [0, 10, 20, 20]"
  have a: "\<not> distinct (map (SerializeHash ex_params) (vtx ?B))" by (rule ex_dup4)
  have b: "MAX_BLOCK_SIZE ex_params < 2 ^ 30" by (simp add: ex_params_def)
  have c: "hashMerkleRoot ?B = fst (BuildMerkleTree ex_params ?B)"
    unfolding ex_root4 by (simp add: ex_block_def)
  have d: "fst (BuildMerkleTree ex_params ?B) =
     fst (BuildMerkleTree ex_params (ex_block 959 1000 [0, 10, 20]))"
    unfolding ex_root4 ex_root3 ..
  have ct: "CheckTransactions ex_params (vtx ?B) ex_state = (True, ex_state)"
    by (simp add: ex_params_def ex_block_def)
  have pre: "vtx ?B \<noteq> [] \<and> length (vtx ?B) \<le> MAX_BLOCK_SIZE ex_params \<and>
          GetSerializeSize ex_params ?B \<le> MAX_BLOCK_SIZE ex_params \<and>
          fst (CheckProofOfWork (ex_chain False) (GetHash (ex_chain False) ?B) (nBits ?B)) \<and>
          uint (nTime ?B) \<le> GetAdjustedTime ex_params + 2 * 60 * 60 \<and>
          IsCoinBase ex_params (vtx ?B ! 0) \<and> \<not> list_ex (IsCoinBase ex_params) (tl (vtx ?B)) \<and>
          fst (CheckTransactions ex_params (vtx ?B) ex_state)"
    unfolding ex_block_pow ct by (simp add: ex_params_def ex_block_def)
  from C4_duplicate_rejected [OF a b, of "ex_chain False" 5 ex_state] pre
  have "CheckBlock (ex_chain False) ex_params ?B 5 ex_state =
            (False, DoS (snd (CheckTransactions ex_params (vtx ?B) ex_state)) 100,
             [''CheckBlock() : duplicate transaction''], snd (BuildMerkleTree ex_params ?B))"
    by blast
  then have e: "CheckBlock (ex_chain False) ex_params ?B 5 ex_state =
     (False, \<lparr>nDoS = 100, invalid = True\<rparr>, [''CheckBlock() : duplicate transaction''],
      snd (BuildMerkleTree ex_params ?B))"
    unfolding ct by (simp add: DoS_def ex_state_def)
  from a b c d e show ?thesis by (intro conjI)
qed

text \<open>
  C4 as stated fails when an earlier check rejects first: the block (A, B, C, C) with
  a target of 0 in \<open>nBits\<close> is rejected for its proof of work, with penalty 50.
\<close>

theorem C4_counterexample:
  "\<not> distinct (map (SerializeHash ex_params) (vtx (ex_block 959 0 [0, 10, 20, 20]))) \<and>
   CheckBlock (ex_chain False) ex_params (ex_block 959 0 [0, 10, 20, 20]) 5 ex_state =
     (False, \<lparr>nDoS = 50, invalid = True\<rparr>,
      [''CheckProofOfWork() : nBits below minimum work'', ''CheckBlock() : proof of work failed''],
      ex_block 959 0 [0, 10, 20, 20])"
proof -
  have p: "CheckProofOfWork (ex_chain False) (GetHash (ex_chain False) (ex_block 959 0 [0, 10, 20, 20]))
      (nBits (ex_block 959 0 [0, 10, 20, 20])) =
        (False, [''CheckProofOfWork() : nBits below minimum work''])"
    by (simp add: CheckProofOfWork_def ex_chain_def ex_block_def Let_def error_def)
  have s: "vtx (ex_block 959 0 [0, 10, 20, 20]) \<noteq> []"
    "\<not> length (vtx (ex_block 959 0 [0, 10, 20, 20])) > MAX_BLOCK_SIZE ex_params"
    "\<not> GetSerializeSize ex_params (ex_block 959 0 [0, 10, 20, 20]) > MAX_BLOCK_SIZE ex_params"
    by (simp_all add: ex_params_def ex_block_def)
  have "CheckBlock (ex_chain False) ex_params (ex_block 959 0 [0, 10, 20, 20]) 5 ex_state =
     (False, DoS ex_state 50,
      [''CheckProofOfWork() : nBits below minimum work'', ''CheckBlock() : proof of work failed''],
      ex_block 959 0 [0, 10, 20, 20])"
    unfolding CheckBlock_def using s by (simp add: p)
  then show ?thesis using ex_dup4 [of 959 0] by (simp add: DoS_def ex_state_def)
qed

section \<open>Remarks on the hypotheses\<close>

text \<open>
  The bound of C9 on the number of outputs is exact: \<open>2+b*8\<close>, computed in 32 bits,
  never exceeds \<open>2^32 - 6\<close>, so the outer loop of \<open>CalcMaskSize\<close> ends only when \<open>vout\<close>
  has at most that many slots.
\<close>

lemma mod8_bound:
  fixes m :: nat
  assumes "m < 4294967296" and "m mod 8 = 2"
  shows "m \<le> 4294967290"
proof -
  have "m div 8 < 536870912" using assms(1) by (simp add: less_mult_imp_div_less)
  moreover have "m = 8 * (m div 8) + m mod 8" by simp
  ultimately show ?thesis using assms(2) by linarith
qed

lemma unat_slot0_le: "unat (2 + b * 8 :: uint32) \<le> 4294967290"
proof -
  have e: "unat (2 + b * 8 :: uint32) = (2 + unat b * 8) mod 4294967296"
    by (simp add: unat_word_ariths mod_simps)
  have "(8 :: nat) dvd 4294967296" by simp
  then have "(2 + unat b * 8) mod 4294967296 mod 8 = (2 + unat b * 8) mod 8"
    by (rule mod_mod_cancel)
  also have "\<dots> = 2"
  proof -
    have "(2 + unat b * 8) mod 8 = 2 mod (8 :: nat)" by (rule mod_mult_self1)
    then show ?thesis by simp
  qed
  finally have "(2 + unat b * 8) mod 4294967296 mod 8 = 2" .
  moreover have "(2 + unat b * 8) mod 4294967296 < 4294967296" by simp
  ultimately show ?thesis unfolding e by (rule mod8_bound [rotated])
qed

lemma CalcMaskSize_loop_returns:
  assumes "CalcMaskSize_loop vo b l z = Some r"
  shows "length vo \<le> 2 ^ 32 - 6"
proof (rule CalcMaskSize_loop.raw_induct
         [where P = "\<lambda>vo b l z r. length vo \<le> 2 ^ 32 - 6", OF _ assms])
  fix f :: "CTxOut list \<Rightarrow> uint32 \<Rightarrow> uint32 \<Rightarrow> uint32 \<Rightarrow> (uint32 \<times> uint32) option"
    and vo' b' l' z' r'
  assume ih: "\<And>vo b l z y. f vo b l z = Some y \<Longrightarrow> length vo \<le> 2 ^ 32 - 6"
    and body: "(if unat (2 + b' * 8) < length vo'
      then if \<not> CalcMaskSize_inner vo' b' 0 True
           then f vo' (b' + 1) (b' + 1) (z' + 1)
           else f vo' (b' + 1) l' z'
      else Some (l', z')) = Some r'"
  show "length vo' \<le> 2 ^ 32 - 6"
  proof (cases "unat (2 + b' * 8) < length vo'")
    case True
    with body ih show ?thesis by (auto split: if_splits)
  next
    case False
    then have "length vo' \<le> unat (2 + b' * 8)" by simp
    also have "\<dots> \<le> 4294967290" by (rule unat_slot0_le)
    finally show ?thesis by simp
  qed
qed

lemma CalcMaskSize_returns_iff:
  "(\<exists>r. CalcMaskSize c nBytes nNonzeroBytes = Some r) = (length (vout c) \<le> 2 ^ 32 - 6)"
proof
  assume "\<exists>r. CalcMaskSize c nBytes nNonzeroBytes = Some r"
  then obtain r' where "CalcMaskSize_loop (vout c) 0 0 nNonzeroBytes = Some r'"
    by (auto simp: CalcMaskSize_def split: option.splits)
  then show "length (vout c) \<le> 2 ^ 32 - 6" by (rule CalcMaskSize_loop_returns)
next
  assume "length (vout c) \<le> 2 ^ 32 - 6"
  then have "CalcMaskSize_loop (vout c) (of_nat 0) 0 nNonzeroBytes \<noteq> None"
    by (subst CalcMaskSize_loop_spec) simp_all
  then show "\<exists>r. CalcMaskSize c nBytes nNonzeroBytes = Some r"
    by (auto simp: CalcMaskSize_def split: option.splits)
qed

text \<open>
  The hypothesis of C2 on the cache is needed. \<open>GetMerkleBranch\<close> trusts a cache that is
  not empty: for a block whose transactions are (0, 10) while its cache still holds the
  tree of (0, 20), the branch of index 0 is that of the old tree and replays to the old
  root 101, not to the root 51 that \<open>BuildMerkleTree\<close> returns.
\<close>

lemma GetMerkleBranch_stale_cache:
  "CheckMerkleBranch (Hash ex_params) (SerializeHash ex_params (vtx (ex_block 0 1000 [0, 10]) ! nat 0))
     (the (fst (GetMerkleBranch ex_params ((ex_block 0 1000 [0, 10])\<lparr>vMerkleTree := [0, 20, 101]\<rparr>) 0))) 0 = 101 \<and>
   fst (BuildMerkleTree ex_params ((ex_block 0 1000 [0, 10])\<lparr>vMerkleTree := [0, 20, 101]\<rparr>)) = 51"
proof -
  have l: "merkle_levels (Hash ex_params) [0, 10] = [[0, 10], [51]]"
    by (simp add: merkle_levels_step merkle_levels_stop ex_params_def)
  have "map (SerializeHash ex_params) (vtx ((ex_block 0 1000 [0, 10])\<lparr>vMerkleTree := [0, 20, 101]\<rparr>)) = [0, 10]"
    "vtx ((ex_block 0 1000 [0, 10])\<lparr>vMerkleTree := [0, 20, 101]\<rparr>) \<noteq> []"
    by (simp_all add: ex_params_def ex_block_def)
  then have r: "fst (BuildMerkleTree ex_params ((ex_block 0 1000 [0, 10])\<lparr>vMerkleTree := [0, 20, 101]\<rparr>)) = 51"
    unfolding BuildMerkleTree_root by (simp add: l)
  have "GetMerkleBranch_loop [0, 20, 101] [] 0 2 0 = Some [20]"
    by (simp add: GetMerkleBranch_loop_step GetMerkleBranch_loop_stop drop_bit_eq_div)
  then have "fst (GetMerkleBranch ex_params ((ex_block 0 1000 [0, 10])\<lparr>vMerkleTree := [0, 20, 101]\<rparr>) 0) = Some [20]"
    by (simp add: GetMerkleBranch_def Let_def ex_block_def)
  then have "CheckMerkleBranch (Hash ex_params) (SerializeHash ex_params (vtx (ex_block 0 1000 [0, 10]) ! nat 0))
     (the (fst (GetMerkleBranch ex_params ((ex_block 0 1000 [0, 10])\<lparr>vMerkleTree := [0, 20, 101]\<rparr>) 0))) 0 = 101"
    by (simp add: CheckMerkleBranch_def ex_params_def ex_block_def)
  with r show ?thesis by (intro conjI)
qed

end
